theory Spec2Isabelle
  imports Complex_Main "HOL-Library.AList"
begin

section \<open>The autonomous task manager (scripts/core/autonomous_manager.py)\<close>

text \<open>
  The manager keeps a pending queue, a dictionary of active tasks and a history of
  finished tasks, all three holding references to the same mutable task objects. The
  model therefore has an explicit object store: a task object is an address, the three
  collections hold addresses, and a write to a task is a write to the store that every
  collection sees.

  Left out of the model: the wall-clock timestamps (\<open>created_at\<close>, \<open>started_at\<close>,
  \<open>completed_at\<close>, the report's \<open>timestamp\<close>, the time prefix of an error-log line and
  of a log entry), the two \<open>time.sleep\<close> delays, the text of the prompt handed to the
  agent, and the report fields \<open>overall_progress\<close> (a floating-point quotient) and
  \<open>resource_usage\<close> (formatted numbers). A Python method name that starts with an
  underscore is written without it.
\<close>

subsection \<open>Data model\<close>

datatype TaskStatus = PENDING | IN_PROGRESS | COMPLETED | FAILED | BLOCKED | CANCELLED

datatype TaskPriority = LOW | MEDIUM | HIGH | CRITICAL

datatype AgentType =
    ORCHESTRATOR | PROJECT_ORGANIZER | CODEBASE_ANALYZER | CODEBASE_LOCATOR
  | SECURITY_SPECIALIST | BACKEND_ARCHITECT | RUST_EXPERT_DEVELOPER
  | COMPETITIVE_MARKET_ANALYST | WEB_SEARCH_RESEARCHER

record AutonomousTask =
  task_id :: string
  description :: string
  agent_type :: AgentType
  priority :: TaskPriority
  status :: TaskStatus
  dependencies :: "string list"
  skills_required :: "string list"
  commands_to_execute :: "string list"
  expected_deliverables :: "string list"
  max_retry_attempts :: int
  timeout_minutes :: int
  progress :: int
  results :: "string list option"
  error_log :: "string list"
  retry_count :: int

record ExecutionReport =
  session_id :: string
  total_tasks :: nat
  completed_tasks :: nat
  failed_tasks :: nat
  blocked_tasks :: nat
  current_phase :: string
  next_actions :: "string list"
  issues_encountered :: "string list"
  recommendations :: "string list"

text \<open>One entry of \<open>execution_log\<close>: the event type with its data.\<close>

datatype event =
    task_added string string AgentType
  | execution_started nat string
  | task_started string AgentType string
  | task_completed string nat "string list"
  | task_retry string int string
  | task_failed string string int
  | orchestrator_notification_failed string

type_synonym addr = nat

text \<open>
  The world outside the manager is a value of type \<open>'w\<close>. An observer callback and the
  agent call both act on it and either return or raise; \<open>Some e\<close> is an exception
  (a subclass of \<open>Exception\<close>) whose \<open>str\<close> is \<open>e\<close>. The agent call is given the task
  as it stands, from whose fields the source builds the prompt; in the source it prints
  and records the call, and what it returns is not used. Neither an observer nor the
  agent call changes the manager or a task.
\<close>

type_synonym 'w callback = "ExecutionReport \<Rightarrow> 'w \<Rightarrow> string option \<times> 'w"

type_synonym 'w agent = "AutonomousTask \<Rightarrow> 'w \<Rightarrow> string option \<times> 'w"

text \<open>
  The fields of the manager, with the object store and the world. The dictionary
  \<open>active_tasks\<close> is an association list in insertion order: \<open>AList.update\<close> is the
  assignment \<open>d[k] = v\<close> and \<open>AList.delete\<close> is \<open>del d[k]\<close>.
\<close>

record 'w AutonomousManager =
  session_id :: string
  task_queue :: "addr list"
  active_tasks :: "(string \<times> addr) list"
  completed_tasks :: "addr list"
  orchestrator_callbacks :: "'w callback list"
  execution_log :: "event list"
  store :: "addr \<Rightarrow> AutonomousTask"
  env :: 'w

datatype py_error = ValueError

subsection \<open>Construction, registration, enqueueing\<close>

text \<open>
  The constructor. The session identifier is \<open>session_id or f"autonomous_{int(time.time())}"\<close>:
  the one given unless it is \<open>None\<close> or the empty string, and otherwise made up from the
  clock, whose reading in whole seconds is the argument \<open>now\<close>. The three collections,
  the callbacks and the log are empty.
\<close>

fun str_nat :: "nat \<Rightarrow> string" where
  "str_nat n =
     (if n < 10 then [''0123456789'' ! n] else str_nat (n div 10) @ [''0123456789'' ! (n mod 10)])"

declare str_nat.simps [simp del]

definition init_manager ::
  "string option \<Rightarrow> nat \<Rightarrow> (addr \<Rightarrow> AutonomousTask) \<Rightarrow> 'w \<Rightarrow> 'w AutonomousManager" where
  "init_manager sid now st w =
     \<lparr> session_id =
         (case sid of
            None \<Rightarrow> ''autonomous_'' @ str_nat now
          | Some x \<Rightarrow> if x = [] then ''autonomous_'' @ str_nat now else x),
       task_queue = [], active_tasks = [], completed_tasks = [],
       orchestrator_callbacks = [], execution_log = [], store = st, env = w \<rparr>"

definition log_event :: "event \<Rightarrow> 'w AutonomousManager \<Rightarrow> 'w AutonomousManager" where
  "log_event e s = s\<lparr> execution_log := execution_log s @ [e] \<rparr>"

definition register_orchestrator_callback ::
  "'w callback \<Rightarrow> 'w AutonomousManager \<Rightarrow> 'w AutonomousManager" where
  "register_orchestrator_callback cb s =
     s\<lparr> orchestrator_callbacks := orchestrator_callbacks s @ [cb] \<rparr>"

fun add_tasks :: "addr list \<Rightarrow> 'w AutonomousManager \<Rightarrow> 'w AutonomousManager" where
  "add_tasks [] s = s"
| "add_tasks (a # as) s =
     add_tasks as
       (log_event (task_added (task_id (store s a)) (description (store s a)) (agent_type (store s a)))
          (s\<lparr> task_queue := task_queue s @ [a] \<rparr>))"

subsection \<open>The readiness selector\<close>

text \<open>
  \<open>list.remove(x)\<close> deletes the first element that is \<open>x\<close> or equals \<open>x\<close> (a dataclass
  compares field by field) and raises \<open>ValueError\<close> when there is none. The fields left
  out of the record can only make fewer tasks equal; what the selector returns does not
  depend on that (\<open>find_ready_scan_eq\<close> below uses of equal tasks only that they have
  the same status and dependencies).
\<close>

fun list_remove :: "(addr \<Rightarrow> AutonomousTask) \<Rightarrow> addr \<Rightarrow> addr list \<Rightarrow> addr list option" where
  "list_remove st a [] = None"
| "list_remove st a (b # bs) =
     (if b = a \<or> st b = st a then Some bs else map_option (Cons b) (list_remove st a bs))"

text \<open>
  The set \<open>completed_task_ids\<close> of \<open>_find_ready_tasks\<close>: the identifiers of the tasks in the
  history \<open>completed_tasks\<close>, which holds the failed tasks as well as the completed ones.
\<close>

definition completed_task_ids :: "'w AutonomousManager \<Rightarrow> string set" where
  "completed_task_ids s = set (map (\<lambda>a. task_id (store s a)) (completed_tasks s))"

definition deps_satisfied :: "string set \<Rightarrow> AutonomousTask \<Rightarrow> bool" where
  "deps_satisfied ids t = list_all (\<lambda>dep_id. dep_id \<in> ids) (dependencies t)"

text \<open>
  The loop of \<open>_find_ready_tasks\<close> over a copy of the queue: the third argument is what is
  left of the copy, then \<open>ready_tasks\<close> and the queue as they stand.
\<close>

fun find_ready_scan ::
  "(addr \<Rightarrow> AutonomousTask) \<Rightarrow> string set \<Rightarrow> addr list \<Rightarrow> addr list \<Rightarrow> addr list
     \<Rightarrow> py_error + (addr list \<times> addr list)" where
  "find_ready_scan st ids [] ready q = Inr (ready, q)"
| "find_ready_scan st ids (t # ts) ready q =
     (if status (st t) \<noteq> PENDING then find_ready_scan st ids ts ready q
      else if deps_satisfied ids (st t) then
        (case list_remove st t q of
           None \<Rightarrow> Inl ValueError
         | Some q' \<Rightarrow> find_ready_scan st ids ts (ready @ [t]) q')
      else find_ready_scan st ids ts ready q)"

definition find_ready_tasks ::
  "'w AutonomousManager \<Rightarrow> py_error + (addr list \<times> 'w AutonomousManager)" where
  "find_ready_tasks s =
     (case find_ready_scan (store s) (completed_task_ids s) (task_queue s) [] (task_queue s) of
        Inl e \<Rightarrow> Inl e
      | Inr (ready, q) \<Rightarrow> Inr (ready, s\<lparr> task_queue := q \<rparr>))"

subsection \<open>Executing one task\<close>

text \<open>
  \<open>_handle_task_error\<close>: the error is logged on the task and \<open>retry_count\<close> incremented; then
  the new count decides between a retry and the final failure.
\<close>

definition handle_task_error :: "addr \<Rightarrow> string \<Rightarrow> 'w AutonomousManager \<Rightarrow> 'w AutonomousManager" where
  "handle_task_error a error s =
     (let t = store s a;
          t1 = t\<lparr> error_log := error_log t @ [error], retry_count := retry_count t + 1 \<rparr>
      in if retry_count t1 < max_retry_attempts t1 then
           log_event (task_retry (task_id t1) (retry_count t1) error)
             (s\<lparr> store := (store s)(a := t1\<lparr> status := PENDING \<rparr>),
                task_queue := task_queue s @ [a] \<rparr>)
         else
           log_event (task_failed (task_id t1) error (retry_count t1))
             (s\<lparr> store := (store s)(a := t1\<lparr> status := FAILED \<rparr>) \<rparr>))"

text \<open>\<open>_execute_task\<close> up to its \<open>try\<close>: the task is marked and entered in the dictionary.\<close>

definition mark_in_progress :: "addr \<Rightarrow> 'w AutonomousManager \<Rightarrow> 'w AutonomousManager" where
  "mark_in_progress a s =
     (let t = (store s a)\<lparr> status := IN_PROGRESS \<rparr>
      in log_event (task_started (task_id t) (agent_type t) (description t))
           (s\<lparr> store := (store s)(a := t),
              active_tasks := AList.update (task_id t) a (active_tasks s) \<rparr>))"

text \<open>
  The \<open>try\<close> statement of \<open>_execute_task\<close>: the agent call, then either the bookkeeping
  of a finished task or, when the call raised, the handler.
\<close>

definition attempt :: "'w agent \<Rightarrow> addr \<Rightarrow> 'w AutonomousManager \<Rightarrow> 'w AutonomousManager" where
  "attempt call_agent a s =
     (case call_agent (store s a) (env s) of
        (None, w) \<Rightarrow>
          (let t = (store s a)\<lparr> status := COMPLETED, progress := 100,
                     results := Some (expected_deliverables (store s a)) \<rparr>
           in log_event (task_completed (task_id t) 2 (expected_deliverables t))
                (s\<lparr> store := (store s)(a := t), env := w \<rparr>))
      | (Some e, w) \<Rightarrow> handle_task_error a e (s\<lparr> env := w \<rparr>))"

definition execute_task :: "'w agent \<Rightarrow> addr \<Rightarrow> 'w AutonomousManager \<Rightarrow> 'w AutonomousManager" where
  "execute_task call_agent a s = attempt call_agent a (mark_in_progress a s)"

subsection \<open>Reconciling the active set\<close>

text \<open>
  \<open>_check_task_completion\<close>: the entries whose task is completed or failed are appended to
  the history in the order of the dictionary, then their keys are deleted.
\<close>

definition finished :: "'w AutonomousManager \<Rightarrow> addr \<Rightarrow> bool" where
  "finished s a \<longleftrightarrow> status (store s a) = COMPLETED \<or> status (store s a) = FAILED"

definition check_task_completion :: "'w AutonomousManager \<Rightarrow> 'w AutonomousManager" where
  "check_task_completion s =
     (let done = filter (\<lambda>(k, a). finished s a) (active_tasks s)
      in s\<lparr> completed_tasks := completed_tasks s @ map snd done,
            active_tasks := foldl (\<lambda>d k. AList.delete k d) (active_tasks s) (map fst done) \<rparr>)"

subsection \<open>Progress reports\<close>

text \<open>
  The thresholds multiply a list length by 0.5 or 0.75 and add integers: exact in binary
  floating point for every length a list can have, so the model computes in the reals.
\<close>

definition determine_current_phase :: "'w AutonomousManager \<Rightarrow> string" where
  "determine_current_phase s =
     (if completed_tasks s = [] then ''Discovery & Planning''
      else if real (length (completed_tasks s))
                < real (length (task_queue s)) + real (length (active_tasks s))
                  + real (length (completed_tasks s)) * 0.5
        then ''Core Implementation''
      else if real (length (completed_tasks s))
                < real (length (task_queue s)) + real (length (active_tasks s))
                  + real (length (completed_tasks s)) * 0.75
        then ''Validation & Security''
      else ''Integration & Completion'')"

definition determine_next_actions :: "'w AutonomousManager \<Rightarrow> string list" where
  "determine_next_actions s =
     (if task_queue s \<noteq> [] then
        map (\<lambda>a. ''Execute '' @ description (store s a)) (take 3 (task_queue s))
      else if active_tasks s \<noteq> [] then
        map (\<lambda>(k, a). ''Complete '' @ description (store s a)) (active_tasks s)
      else [''Generate final deliverables'', ''Prepare orchestrator handoff''])"

definition generate_recommendations :: "'w AutonomousManager \<Rightarrow> string list" where
  "generate_recommendations s =
     (if list_ex (\<lambda>a. retry_count (store s a) > 0) (completed_tasks s)
        then [''Consider increasing timeout for complex tasks''] else [])
     @ (if length (completed_tasks s) > 0
           \<and> real (2 * length (completed_tasks s)) / real (length (completed_tasks s)) > 30
        then [''Consider breaking down complex tasks further''] else [])"

definition generate_progress_report :: "'w AutonomousManager \<Rightarrow> ExecutionReport" where
  "generate_progress_report s =
     \<lparr> ExecutionReport.session_id = session_id s,
       total_tasks = length (task_queue s) + length (active_tasks s) + length (completed_tasks s),
       ExecutionReport.completed_tasks =
         length (filter (\<lambda>a. status (store s a) = COMPLETED) (completed_tasks s)),
       failed_tasks = length (filter (\<lambda>a. status (store s a) = FAILED) (completed_tasks s)),
       blocked_tasks =
         length (filter (\<lambda>(k, a). status (store s a) = BLOCKED) (active_tasks s)),
       current_phase = determine_current_phase s,
       next_actions = determine_next_actions s,
       issues_encountered =
         map (\<lambda>a. last (error_log (store s a)))
           (filter (\<lambda>a. error_log (store s a) \<noteq> []) (completed_tasks s)),
       recommendations = generate_recommendations s \<rparr>"

definition generate_final_report :: "'w AutonomousManager \<Rightarrow> ExecutionReport" where
  "generate_final_report s =
     (generate_progress_report s)
       \<lparr> current_phase := ''Completed'',
         next_actions := [''Review deliverables'', ''Validate results'', ''Plan next iteration''] \<rparr>"

subsection \<open>Notifying the observers\<close>

definition notify_one ::
  "ExecutionReport \<Rightarrow> 'w AutonomousManager \<Rightarrow> 'w callback \<Rightarrow> 'w AutonomousManager" where
  "notify_one report s cb =
     (case cb report (env s) of
        (None, w) \<Rightarrow> s\<lparr> env := w \<rparr>
      | (Some e, w) \<Rightarrow> log_event (orchestrator_notification_failed e) (s\<lparr> env := w \<rparr>))"

definition notify_orchestrator ::
  "ExecutionReport \<Rightarrow> 'w AutonomousManager \<Rightarrow> 'w AutonomousManager" where
  "notify_orchestrator report s = foldl (notify_one report) s (orchestrator_callbacks s)"

subsection \<open>The top-level loop\<close>

text \<open>
  One pass through the body of the \<open>while\<close> loop. The report of the pass, when there is
  one, is returned beside the state so that successive reports can be compared.
\<close>

definition loop_iteration ::
  "'w agent \<Rightarrow> 'w AutonomousManager \<Rightarrow> py_error + (ExecutionReport option \<times> 'w AutonomousManager)" where
  "loop_iteration call_agent s =
     (case find_ready_tasks s of
        Inl e \<Rightarrow> Inl e
      | Inr (ready_tasks, s1) \<Rightarrow>
          (let s2 = foldl (\<lambda>s' task. execute_task call_agent task s') s1 ready_tasks;
               s3 = check_task_completion s2
           in if ready_tasks \<noteq> [] then
                (let report = generate_progress_report s3
                 in Inr (Some report, notify_orchestrator report s3))
              else Inr (None, s3)))"

text \<open>The report of a pass as a list: empty when the pass generated none.\<close>

definition report_list :: "ExecutionReport option \<Rightarrow> ExecutionReport list" where
  "report_list r = (case r of None \<Rightarrow> [] | Some x \<Rightarrow> [x])"

definition loop_condition :: "'w AutonomousManager \<Rightarrow> bool" where
  "loop_condition s \<longleftrightarrow> task_queue s \<noteq> [] \<or> active_tasks s \<noteq> []"

text \<open>
  The \<open>while\<close> loop. It need not terminate, so it is a partial function: \<open>None\<close> is a run
  that never leaves the loop. The third argument collects the reports generated so far.
\<close>

partial_function (option) autonomous_loop ::
  "'w agent \<Rightarrow> 'w AutonomousManager \<Rightarrow> ExecutionReport list
     \<Rightarrow> (py_error + (ExecutionReport list \<times> 'w AutonomousManager)) option" where
  "autonomous_loop call_agent s reports =
     (if loop_condition s then
        (case loop_iteration call_agent s of
           Inl e \<Rightarrow> Some (Inl e)
         | Inr (r, s') \<Rightarrow>
             autonomous_loop call_agent s' (reports @ report_list r))
      else Some (Inr (reports, s)))"

text \<open>The state and the reports after at most \<open>n\<close> passes of the same loop.\<close>

fun loop_prefix ::
  "nat \<Rightarrow> 'w agent \<Rightarrow> 'w AutonomousManager \<Rightarrow> ExecutionReport list
     \<Rightarrow> py_error + (ExecutionReport list \<times> 'w AutonomousManager)" where
  "loop_prefix 0 call_agent s reports = Inr (reports, s)"
| "loop_prefix (Suc n) call_agent s reports =
     (if loop_condition s then
        (case loop_iteration call_agent s of
           Inl e \<Rightarrow> Inl e
         | Inr (r, s') \<Rightarrow>
             loop_prefix n call_agent s' (reports @ report_list r))
      else Inr (reports, s))"

text \<open>
  \<open>start_autonomous_execution\<close> returns the final report; the model returns with it the
  reports generated inside the loop and the manager's final state.
\<close>

definition start_autonomous_execution ::
  "'w agent \<Rightarrow> 'w AutonomousManager
     \<Rightarrow> (py_error + (ExecutionReport \<times> ExecutionReport list \<times> 'w AutonomousManager)) option" where
  "start_autonomous_execution call_agent s =
     (case autonomous_loop call_agent
             (log_event (execution_started (length (task_queue s)) (session_id s)) s) [] of
        None \<Rightarrow> None
      | Some (Inl e) \<Rightarrow> Some (Inl e)
      | Some (Inr (reports, s1)) \<Rightarrow>
          (let final_report = generate_final_report s1
           in Some (Inr (final_report, reports, notify_orchestrator final_report s1))))"

section \<open>Notions used to state the properties\<close>

subsection \<open>Parts of the operations, named\<close>

text \<open>The test of the loop of \<open>_find_ready_tasks\<close>: pending, and every dependency completed.\<close>

definition is_ready :: "'w AutonomousManager \<Rightarrow> addr \<Rightarrow> bool" where
  "is_ready s a \<longleftrightarrow>
     status (store s a) = PENDING \<and> deps_satisfied (completed_task_ids s) (store s a)"

text \<open>What \<open>_find_ready_tasks\<close> returns in a state.\<close>

definition ready_now :: "'w AutonomousManager \<Rightarrow> addr list" where
  "ready_now s = filter (is_ready s) (task_queue s)"

text \<open>
  The retry test of \<open>_handle_task_error\<close>, on the task as it is before the handler
  increments \<open>retry_count\<close>; the task after the handler, after the successful branch of
  \<open>_execute_task\<close>, and after its first assignment.
\<close>

definition retry_allowed :: "AutonomousTask \<Rightarrow> bool" where
  "retry_allowed t \<longleftrightarrow> retry_count t + 1 < max_retry_attempts t"

definition after_error :: "string \<Rightarrow> AutonomousTask \<Rightarrow> AutonomousTask" where
  "after_error e t =
     t\<lparr> error_log := error_log t @ [e], retry_count := retry_count t + 1,
        status := (if retry_allowed t then PENDING else FAILED) \<rparr>"

definition after_success :: "AutonomousTask \<Rightarrow> AutonomousTask" where
  "after_success t =
     t\<lparr> status := COMPLETED, progress := 100, results := Some (expected_deliverables t) \<rparr>"

definition in_progress :: "AutonomousTask \<Rightarrow> AutonomousTask" where
  "in_progress t = t\<lparr> status := IN_PROGRESS \<rparr>"

text \<open>The \<open>for\<close> loop of the top-level loop that executes the ready tasks in turn.\<close>

definition execute_all :: "'w agent \<Rightarrow> addr list \<Rightarrow> 'w AutonomousManager \<Rightarrow> 'w AutonomousManager" where
  "execute_all ag rs s = foldl (\<lambda>s' task. execute_task ag task s') s rs"

text \<open>
  The state in which a pass of the loop generates its report: the ready tasks have been
  taken from the queue and executed, and the active set reconciled.
\<close>

definition pass_state :: "'w agent \<Rightarrow> 'w AutonomousManager \<Rightarrow> 'w AutonomousManager" where
  "pass_state ag s =
     check_task_completion
       (execute_all ag (ready_now s)
          (s\<lparr> task_queue := filter (\<lambda>a. \<not> is_ready s a) (task_queue s) \<rparr>))"

subsection \<open>Predicates on states, reports and logs\<close>

text \<open>The task objects the manager holds in any of its three collections.\<close>

definition known_tasks :: "'w AutonomousManager \<Rightarrow> addr set" where
  "known_tasks s = set (task_queue s) \<union> snd ` set (active_tasks s) \<union> set (completed_tasks s)"

text \<open>No task of the active dictionary is blocked; every task of the history is finished.\<close>

definition no_blocked_active :: "'w AutonomousManager \<Rightarrow> bool" where
  "no_blocked_active s = list_all (\<lambda>(k, a). status (store s a) \<noteq> BLOCKED) (active_tasks s)"

definition history_finished :: "'w AutonomousManager \<Rightarrow> bool" where
  "history_finished s = list_all (finished s) (completed_tasks s)"

text \<open>The number of tasks a report counts as completed or failed.\<close>

definition settled :: "ExecutionReport \<Rightarrow> nat" where
  "settled r = ExecutionReport.completed_tasks r + failed_tasks r"

text \<open>The four phase labels of a progress report.\<close>

definition phase_labels :: "string set" where
  "phase_labels = {''Discovery & Planning'', ''Core Implementation'', ''Validation & Security'',
     ''Integration & Completion''}"

text \<open>
  Between two states no task was newly given the status blocked or cancelled: a task
  that has one of the two afterwards had the same status before.
\<close>

definition sets_no_blocked :: "'w AutonomousManager \<Rightarrow> 'w AutonomousManager \<Rightarrow> bool" where
  "sets_no_blocked s s' \<longleftrightarrow>
     (\<forall>a. status (store s' a) = BLOCKED \<or> status (store s' a) = CANCELLED
          \<longrightarrow> status (store s' a) = status (store s a))"

text \<open>The edges of the task state machine, as the specification lists them.\<close>

definition legal_edge :: "TaskStatus \<Rightarrow> TaskStatus \<Rightarrow> bool" where
  "legal_edge x y \<longleftrightarrow>
     (x = PENDING \<and> y = IN_PROGRESS) \<or> (x = IN_PROGRESS \<and> y = COMPLETED)
     \<or> (x = IN_PROGRESS \<and> y = PENDING) \<or> (x = IN_PROGRESS \<and> y = FAILED)"

text \<open>Between two states every task kept its status or moved along one edge.\<close>

definition status_step :: "'w AutonomousManager \<Rightarrow> 'w AutonomousManager \<Rightarrow> bool" where
  "status_step s s' \<longleftrightarrow>
     (\<forall>a. status (store s' a) = status (store s a)
          \<or> legal_edge (status (store s a)) (status (store s' a)))"

text \<open>
  The messages of the callbacks that raise when they are called in turn with a report,
  each on the world the one before left.
\<close>

fun callback_errors :: "ExecutionReport \<Rightarrow> 'w \<Rightarrow> 'w callback list \<Rightarrow> string list" where
  "callback_errors r w [] = []"
| "callback_errors r w (cb # cbs) =
     (case fst (cb r w) of None \<Rightarrow> [] | Some e \<Rightarrow> [e]) @ callback_errors r (snd (cb r w)) cbs"

text \<open>How often the execution log records the start of the task with a given identifier.\<close>

fun is_start_of :: "string \<Rightarrow> event \<Rightarrow> bool" where
  "is_start_of tid (task_started i _ _) = (i = tid)"
| "is_start_of tid _ = False"

definition attempts :: "string \<Rightarrow> event list \<Rightarrow> nat" where
  "attempts tid events = length (filter (is_start_of tid) events)"

text \<open>
  A manager whose only pending task is \<open>a\<close>, ready to run, and entered in the dictionary
  of active tasks at most by itself (as it is after a retry); an agent call that raises
  whatever the task and the world.
\<close>

definition sole_task :: "'w AutonomousManager \<Rightarrow> addr \<Rightarrow> bool" where
  "sole_task s a \<longleftrightarrow>
     task_queue s = [a] \<and> is_ready s a
     \<and> (active_tasks s = [] \<or> active_tasks s = [(task_id (store s a), a)])"

definition always_raises :: "'w agent \<Rightarrow> bool" where
  "always_raises ag \<longleftrightarrow> (\<forall>t w. fst (ag t w) \<noteq> None)"

section \<open>Concrete tasks, agents and managers used as examples\<close>

text \<open>
  A task as \<open>create_task_plan\<close> builds it (priority high, status pending) with the
  dataclass defaults for the retry budget and the timeout.
\<close>

definition plain_task :: "string \<Rightarrow> string list \<Rightarrow> AutonomousTask" where
  "plain_task tid deps =
     \<lparr> task_id = tid, description = ''work'', agent_type = ORCHESTRATOR, priority = HIGH,
       status = PENDING, dependencies = deps, skills_required = [], commands_to_execute = [],
       expected_deliverables = [], max_retry_attempts = 3, timeout_minutes = 30, progress = 0,
       results = None, error_log = [], retry_count = 0 \<rparr>"

text \<open>A store in which every address holds the same task value.\<close>

definition single_store :: "AutonomousTask \<Rightarrow> addr \<Rightarrow> AutonomousTask" where
  "single_store t a = t"

text \<open>An agent call that always raises, and one that always returns.\<close>

definition failing_agent :: "unit agent" where
  "failing_agent t w = (Some ''boom'', w)"

definition quiet_agent :: "unit agent" where
  "quiet_agent t w = (None, w)"

text \<open>A new manager to which the task objects at the given addresses have been added.\<close>

definition fresh_manager :: "(addr \<Rightarrow> AutonomousTask) \<Rightarrow> addr list \<Rightarrow> unit AutonomousManager" where
  "fresh_manager st as = add_tasks as (init_manager (Some ''session'') 0 st ())"

text \<open>One task without dependencies.\<close>

definition one_pending :: "unit AutonomousManager" where
  "one_pending = fresh_manager (single_store (plain_task ''A'' [])) [0]"

text \<open>The same task object added twice.\<close>

definition twice_queued :: "unit AutonomousManager" where
  "twice_queued = fresh_manager (single_store (plain_task ''A'' [])) [0, 0]"

text \<open>A task whose only dependency is an identifier that no task has.\<close>

definition stuck_manager :: "unit AutonomousManager" where
  "stuck_manager = fresh_manager (single_store (plain_task ''B'' [''ghost''])) [0]"

text \<open>
  Task A at address 0 and task B, which depends on A, at address 1; the states in which
  the two passes of their run generate their reports when every agent call returns.
\<close>

definition chain_store :: "addr \<Rightarrow> AutonomousTask" where
  "chain_store = (single_store (plain_task ''B'' [''A'']))(0 := plain_task ''A'' [])"

definition chain_manager :: "unit AutonomousManager" where
  "chain_manager = fresh_manager chain_store [0, 1]"

definition chain_pass1 :: "unit AutonomousManager" where
  "chain_pass1 = pass_state quiet_agent chain_manager"

definition chain_pass2 :: "unit AutonomousManager" where
  "chain_pass2 =
     pass_state quiet_agent (notify_orchestrator (generate_progress_report chain_pass1) chain_pass1)"

text \<open>
  Task A at address 0 with a retry budget of 1, so that its first failure is final, and
  task B, which depends on A, at address 1; the state in which the first pass of their
  run generates its report when every agent call raises.
\<close>

definition brittle_store :: "addr \<Rightarrow> AutonomousTask" where
  "brittle_store =
     (single_store (plain_task ''B'' [''A'']))(0 := (plain_task ''A'' [])\<lparr> max_retry_attempts := 1 \<rparr>)"

definition brittle_manager :: "unit AutonomousManager" where
  "brittle_manager = fresh_manager brittle_store [0, 1]"

definition brittle_pass1 :: "unit AutonomousManager" where
  "brittle_pass1 = pass_state failing_agent brittle_manager"

text \<open>
  One task D with \<open>max_retry_attempts = 2\<close>; the state in which the loop starts, and the
  states after the two passes of its run when every agent call raises.
\<close>

definition retry_manager :: "unit AutonomousManager" where
  "retry_manager =
     fresh_manager (single_store ((plain_task ''D'' [])\<lparr> max_retry_attempts := 2 \<rparr>)) [0]"

definition retry_start :: "unit AutonomousManager" where
  "retry_start =
     log_event (execution_started (length (task_queue retry_manager)) (session_id retry_manager))
       retry_manager"

definition retry_pass1 :: "unit AutonomousManager" where
  "retry_pass1 = pass_state failing_agent retry_start"

definition retry_pass2 :: "unit AutonomousManager" where
  "retry_pass2 = pass_state failing_agent retry_pass1"

text \<open>
  The world of these observers is a transcript: each appends its tag and the phase of
  the report it was called with; an observer given an error message raises it after that.
  The manager below has three observers, of which the second raises.
\<close>

definition observer :: "string \<Rightarrow> string option \<Rightarrow> string list callback" where
  "observer tag err r w = (err, w @ [tag @ '': '' @ current_phase r])"

definition observed_manager :: "string list AutonomousManager" where
  "observed_manager =
     register_orchestrator_callback (observer ''third'' None)
       (register_orchestrator_callback (observer ''second'' (Some ''observer down''))
          (register_orchestrator_callback (observer ''first'' None)
             (add_tasks [0] (init_manager (Some ''session'') 0 (single_store (plain_task ''A'' [])) []))))"

definition talking_agent :: "string list agent" where
  "talking_agent t w = (None, w)"

section \<open>Properties of the operations\<close>

subsection \<open>The session identifier of a new manager\<close>

lemma init_manager_session_id:
  "x \<noteq> [] \<Longrightarrow> session_id (init_manager (Some x) now st w) = x"
  "session_id (init_manager (Some []) 1700000000 st w) = ''autonomous_1700000000''"
  "session_id (init_manager None 1700000000 st w) = ''autonomous_1700000000''"
  by (simp_all add: init_manager_def str_nat.simps)

subsection \<open>The readiness selector never raises and splits the queue\<close>

lemma list_remove_first:
  "(\<And>b. b \<in> set p \<Longrightarrow> st b \<noteq> st t) \<Longrightarrow> list_remove st t (p @ t # ts) = Some (p @ ts)"
  by (induction p) auto

lemma find_ready_scan_eq:
  assumes "\<And>b. b \<in> set p \<Longrightarrow> \<not> (status (st b) = PENDING \<and> deps_satisfied ids (st b))"
  shows "find_ready_scan st ids xs ready (p @ xs) =
           Inr (ready @ filter (\<lambda>a. status (st a) = PENDING \<and> deps_satisfied ids (st a)) xs,
                p @ filter (\<lambda>a. \<not> (status (st a) = PENDING \<and> deps_satisfied ids (st a))) xs)"
  using assms
proof (induction xs arbitrary: ready p)
  case Nil
  then show ?case by simp
next
  case (Cons t ts)
  show ?case
  proof (cases "status (st t) = PENDING \<and> deps_satisfied ids (st t)")
    case True
    have "\<And>b. b \<in> set p \<Longrightarrow> st b \<noteq> st t"
      using Cons.prems True by metis
    then have rm: "list_remove st t (p @ t # ts) = Some (p @ ts)"
      by (rule list_remove_first)
    have "find_ready_scan st ids ts (ready @ [t]) (p @ ts) =
            Inr ((ready @ [t]) @ filter (\<lambda>a. status (st a) = PENDING \<and> deps_satisfied ids (st a)) ts,
                 p @ filter (\<lambda>a. \<not> (status (st a) = PENDING \<and> deps_satisfied ids (st a))) ts)"
      by (rule Cons.IH) (rule Cons.prems)
    with True rm show ?thesis
      by simp
  next
    case False
    have "find_ready_scan st ids ts ready ((p @ [t]) @ ts) =
            Inr (ready @ filter (\<lambda>a. status (st a) = PENDING \<and> deps_satisfied ids (st a)) ts,
                 (p @ [t]) @ filter (\<lambda>a. \<not> (status (st a) = PENDING \<and> deps_satisfied ids (st a))) ts)"
    proof (rule Cons.IH)
      fix b assume "b \<in> set (p @ [t])"
      with False Cons.prems show "\<not> (status (st b) = PENDING \<and> deps_satisfied ids (st b))"
        by auto
    qed
    with False show ?thesis
      by auto
  qed
qed

lemma find_ready_tasks_eq:
  "find_ready_tasks s =
     Inr (filter (is_ready s) (task_queue s),
          s\<lparr> task_queue := filter (\<lambda>a. \<not> is_ready s a) (task_queue s) \<rparr>)"
  using find_ready_scan_eq [of "[]" "store s" "completed_task_ids s" "task_queue s" "[]"]
  by (simp add: find_ready_tasks_def is_ready_def [abs_def])

lemma is_ready_queue_update: "is_ready (s\<lparr> task_queue := q \<rparr>) = is_ready s"
  by (simp add: is_ready_def [abs_def] completed_task_ids_def)

lemma ready_now_is_ready: "a \<in> set (ready_now s) \<Longrightarrow> is_ready s a"
  by (simp add: ready_now_def)

lemma deps_satisfied_subset: "deps_satisfied ids t \<longleftrightarrow> set (dependencies t) \<subseteq> ids"
  by (auto simp: deps_satisfied_def list_all_iff)

subsection \<open>The effect of each operation, field by field\<close>

lemma log_event_fields:
  "task_queue (log_event e s) = task_queue s"
  "active_tasks (log_event e s) = active_tasks s"
  "completed_tasks (log_event e s) = completed_tasks s"
  "store (log_event e s) = store s"
  "env (log_event e s) = env s"
  "orchestrator_callbacks (log_event e s) = orchestrator_callbacks s"
  "session_id (log_event e s) = session_id s"
  "execution_log (log_event e s) = execution_log s @ [e]"
  by (simp_all add: log_event_def)

lemma add_tasks_store: "store (add_tasks as s) = store s"
  by (induction as arbitrary: s) (simp_all add: log_event_fields)

lemma handle_task_error_fields:
  "store (handle_task_error a e s) = (store s)(a := after_error e (store s a))"
  "task_queue (handle_task_error a e s) =
     (if retry_allowed (store s a) then task_queue s @ [a] else task_queue s)"
  "active_tasks (handle_task_error a e s) = active_tasks s"
  "completed_tasks (handle_task_error a e s) = completed_tasks s"
  "orchestrator_callbacks (handle_task_error a e s) = orchestrator_callbacks s"
  "env (handle_task_error a e s) = env s"
  "session_id (handle_task_error a e s) = session_id s"
  "execution_log (handle_task_error a e s) =
     execution_log s @
       [if retry_allowed (store s a)
        then task_retry (task_id (store s a)) (retry_count (store s a) + 1) e
        else task_failed (task_id (store s a)) e (retry_count (store s a) + 1)]"
  by (simp_all add: handle_task_error_def log_event_def Let_def retry_allowed_def after_error_def)

lemma mark_in_progress_fields:
  "store (mark_in_progress a s) = (store s)(a := (store s a)\<lparr> status := IN_PROGRESS \<rparr>)"
  "task_queue (mark_in_progress a s) = task_queue s"
  "active_tasks (mark_in_progress a s) = AList.update (task_id (store s a)) a (active_tasks s)"
  "completed_tasks (mark_in_progress a s) = completed_tasks s"
  "orchestrator_callbacks (mark_in_progress a s) = orchestrator_callbacks s"
  "env (mark_in_progress a s) = env s"
  "session_id (mark_in_progress a s) = session_id s"
  "execution_log (mark_in_progress a s) =
     execution_log s @
       [task_started (task_id (store s a)) (agent_type (store s a)) (description (store s a))]"
  by (simp_all add: mark_in_progress_def log_event_def Let_def)

lemma attempt_fields:
  "store (attempt ag a s) =
     (store s)(a := (case fst (ag (store s a) (env s)) of
                       None \<Rightarrow> after_success (store s a)
                     | Some e \<Rightarrow> after_error e (store s a)))"
  "task_queue (attempt ag a s) =
     (if fst (ag (store s a) (env s)) \<noteq> None \<and> retry_allowed (store s a)
      then task_queue s @ [a] else task_queue s)"
  "active_tasks (attempt ag a s) = active_tasks s"
  "completed_tasks (attempt ag a s) = completed_tasks s"
  "orchestrator_callbacks (attempt ag a s) = orchestrator_callbacks s"
  "env (attempt ag a s) = snd (ag (store s a) (env s))"
  "session_id (attempt ag a s) = session_id s"
  "execution_log (attempt ag a s) =
     execution_log s @
       [case fst (ag (store s a) (env s)) of
          None \<Rightarrow> task_completed (task_id (store s a)) 2 (expected_deliverables (store s a))
        | Some e \<Rightarrow>
            if retry_allowed (store s a)
            then task_retry (task_id (store s a)) (retry_count (store s a) + 1) e
            else task_failed (task_id (store s a)) e (retry_count (store s a) + 1)]"
  by (simp_all add: attempt_def handle_task_error_fields log_event_def Let_def after_success_def
      split: prod.splits option.splits)

lemma execute_task_fields:
  "store (execute_task ag a s) =
     (store s)(a := (case fst (ag (in_progress (store s a)) (env s)) of
                       None \<Rightarrow> after_success (in_progress (store s a))
                     | Some e \<Rightarrow> after_error e (in_progress (store s a))))"
  "task_queue (execute_task ag a s) =
     (if fst (ag (in_progress (store s a)) (env s)) \<noteq> None \<and> retry_allowed (store s a)
      then task_queue s @ [a] else task_queue s)"
  "active_tasks (execute_task ag a s) = AList.update (task_id (store s a)) a (active_tasks s)"
  "completed_tasks (execute_task ag a s) = completed_tasks s"
  "orchestrator_callbacks (execute_task ag a s) = orchestrator_callbacks s"
  "env (execute_task ag a s) = snd (ag (in_progress (store s a)) (env s))"
  "session_id (execute_task ag a s) = session_id s"
  by (simp_all add: execute_task_def attempt_fields mark_in_progress_fields in_progress_def
      retry_allowed_def split: option.splits)

lemma execute_task_log:
  "execution_log (execute_task ag a s) =
     execution_log s @
       [task_started (task_id (store s a)) (agent_type (store s a)) (description (store s a)),
        case fst (ag (in_progress (store s a)) (env s)) of
          None \<Rightarrow> task_completed (task_id (store s a)) 2 (expected_deliverables (store s a))
        | Some e \<Rightarrow>
            if retry_allowed (store s a)
            then task_retry (task_id (store s a)) (retry_count (store s a) + 1) e
            else task_failed (task_id (store s a)) e (retry_count (store s a) + 1)]"
  by (simp add: execute_task_def attempt_fields mark_in_progress_fields in_progress_def
      retry_allowed_def split: option.splits)

lemma after_error_keeps:
  "task_id (after_error e t) = task_id t"
  "dependencies (after_error e t) = dependencies t"
  "max_retry_attempts (after_error e t) = max_retry_attempts t"
  "retry_count (after_error e t) = retry_count t + 1"
  "status (after_error e t) = (if retry_allowed t then PENDING else FAILED)"
  by (simp_all add: after_error_def)

lemma after_success_keeps:
  "task_id (after_success t) = task_id t"
  "dependencies (after_success t) = dependencies t"
  "max_retry_attempts (after_success t) = max_retry_attempts t"
  "retry_count (after_success t) = retry_count t"
  "status (after_success t) = COMPLETED"
  by (simp_all add: after_success_def)

lemma in_progress_keeps:
  "task_id (in_progress t) = task_id t"
  "dependencies (in_progress t) = dependencies t"
  "max_retry_attempts (in_progress t) = max_retry_attempts t"
  "retry_count (in_progress t) = retry_count t"
  "status (in_progress t) = IN_PROGRESS"
  "retry_allowed (in_progress t) = retry_allowed t"
  by (simp_all add: in_progress_def retry_allowed_def)

lemma execute_task_other: "b \<noteq> a \<Longrightarrow> store (execute_task ag a s) b = store s b"
  by (simp add: execute_task_fields)

lemma execute_task_identity:
  "task_id (store (execute_task ag a s) b) = task_id (store s b)"
  "dependencies (store (execute_task ag a s) b) = dependencies (store s b)"
  "max_retry_attempts (store (execute_task ag a s) b) = max_retry_attempts (store s b)"
  by (simp_all add: execute_task_fields after_error_keeps after_success_keeps in_progress_keeps
      split: option.splits)

lemma execute_task_status:
  "status (store (execute_task ag a s) a) =
     (case fst (ag (in_progress (store s a)) (env s)) of
        None \<Rightarrow> COMPLETED
      | Some e \<Rightarrow> if retry_allowed (store s a) then PENDING else FAILED)"
  by (simp add: execute_task_fields after_error_keeps after_success_keeps in_progress_keeps
      split: option.splits)

lemma execute_task_status_cases:
  "status (store (execute_task ag a s) a) = COMPLETED
   \<or> status (store (execute_task ag a s) a) = PENDING
   \<or> status (store (execute_task ag a s) a) = FAILED"
  by (simp add: execute_task_status split: option.splits)

lemma execute_task_queue:
  "\<exists>ys. task_queue (execute_task ag a s) = task_queue s @ ys \<and> (ys = [] \<or> ys = [a])"
  by (simp add: execute_task_fields)

lemma update_entries:
  "(k, v) \<in> set (AList.update k' v' al) \<Longrightarrow> (k, v) = (k', v') \<or> (k, v) \<in> set al"
  by (induction al) (auto split: if_splits)

lemma update_member: "(k, v) \<in> set (AList.update k v al)"
  by (induction al) auto

lemma execute_task_retry:
  assumes "fst (ag (in_progress (store s a)) (env s)) = Some e"
    and "retry_count (store s a) + 1 < max_retry_attempts (store s a)"
  shows "task_queue (execute_task ag a s) = task_queue s @ [a]"
    and "status (store (execute_task ag a s) a) = PENDING"
    and "(task_id (store s a), a) \<in> set (active_tasks (execute_task ag a s))"
  using assms
  by (simp_all add: execute_task_fields retry_allowed_def update_member after_error_keeps
      in_progress_keeps)

lemma execute_task_keys:
  "distinct (map fst (active_tasks s)) \<Longrightarrow> distinct (map fst (active_tasks (execute_task ag a s)))"
  by (simp add: execute_task_fields distinct_update)

subsection \<open>Executing the ready tasks in turn\<close>

lemma execute_all_simps:
  "execute_all ag [] s = s"
  "execute_all ag (a # rs) s = execute_all ag rs (execute_task ag a s)"
  "execute_all ag (rs @ [a]) s = execute_task ag a (execute_all ag rs s)"
  by (simp_all add: execute_all_def)

lemma execute_all_frame:
  "completed_tasks (execute_all ag rs s) = completed_tasks s"
  "orchestrator_callbacks (execute_all ag rs s) = orchestrator_callbacks s"
  "session_id (execute_all ag rs s) = session_id s"
  by (induction rs arbitrary: s) (simp_all add: execute_all_simps execute_task_fields)

lemma execute_all_other: "b \<notin> set rs \<Longrightarrow> store (execute_all ag rs s) b = store s b"
  by (induction rs arbitrary: s) (simp_all add: execute_all_simps execute_task_other)

lemma execute_all_identity:
  "task_id (store (execute_all ag rs s) b) = task_id (store s b)"
  "dependencies (store (execute_all ag rs s) b) = dependencies (store s b)"
  "max_retry_attempts (store (execute_all ag rs s) b) = max_retry_attempts (store s b)"
  by (induction rs arbitrary: s) (simp_all add: execute_all_simps execute_task_identity)

lemma completed_task_ids_execute_all:
  "completed_task_ids (execute_all ag rs s) = completed_task_ids s"
  by (simp add: completed_task_ids_def execute_all_frame execute_all_identity)

lemma execute_all_status:
  "b \<in> set rs \<Longrightarrow>
     status (store (execute_all ag rs s) b) = COMPLETED
     \<or> status (store (execute_all ag rs s) b) = PENDING
     \<or> status (store (execute_all ag rs s) b) = FAILED"
proof (induction rs arbitrary: s rule: rev_induct)
  case Nil
  then show ?case by simp
next
  case (snoc a rs)
  show ?case
  proof (cases "b = a")
    case True
    then show ?thesis
      using execute_task_status_cases [of ag a "execute_all ag rs s"]
      by (simp add: execute_all_simps)
  next
    case False
    with snoc.prems have "b \<in> set rs" by simp
    from snoc.IH [OF this, of s] False show ?thesis
      by (simp add: execute_all_simps execute_task_other)
  qed
qed

lemma execute_all_queue:
  "\<exists>ys. task_queue (execute_all ag rs s) = task_queue s @ ys
        \<and> set ys \<subseteq> set rs \<and> (distinct rs \<longrightarrow> distinct ys)"
proof (induction rs arbitrary: s rule: rev_induct)
  case Nil
  then show ?case by (simp add: execute_all_simps)
next
  case (snoc a rs)
  obtain ys where ys: "task_queue (execute_all ag rs s) = task_queue s @ ys"
      "set ys \<subseteq> set rs" "distinct rs \<longrightarrow> distinct ys"
    using snoc.IH [of s] by blast
  obtain zs where zs: "task_queue (execute_task ag a (execute_all ag rs s))
      = task_queue (execute_all ag rs s) @ zs" "zs = [] \<or> zs = [a]"
    using execute_task_queue [of ag a "execute_all ag rs s"] by blast
  have "task_queue (execute_all ag (rs @ [a]) s) = task_queue s @ (ys @ zs)"
    using ys(1) zs(1) by (simp add: execute_all_simps)
  moreover have "set (ys @ zs) \<subseteq> set (rs @ [a])"
    using ys(2) zs(2) by auto
  moreover have "distinct (rs @ [a]) \<longrightarrow> distinct (ys @ zs)"
    using ys(2,3) zs(2) by auto
  ultimately show ?case by blast
qed

lemma execute_all_active:
  "(k, b) \<in> set (active_tasks (execute_all ag rs s)) \<Longrightarrow>
     b \<in> set rs \<or> (k, b) \<in> set (active_tasks s)"
proof (induction rs arbitrary: s rule: rev_induct)
  case Nil
  then show ?case by (simp add: execute_all_simps)
next
  case (snoc a rs)
  from snoc.prems have "(k, b) \<in> set (AList.update (task_id (store (execute_all ag rs s) a)) a
      (active_tasks (execute_all ag rs s)))"
    by (simp add: execute_all_simps execute_task_fields)
  then have "b = a \<or> (k, b) \<in> set (active_tasks (execute_all ag rs s))"
    using update_entries by fastforce
  with snoc.IH [of s] show ?case by auto
qed

subsection \<open>Reconciling the active set\<close>

lemma delete_all_keys:
  "foldl (\<lambda>d k. AList.delete k d) al ks = filter (\<lambda>p. fst p \<notin> set ks) al"
proof (induction ks arbitrary: al)
  case Nil
  then show ?case by simp
next
  case (Cons k ks)
  have "AList.delete k al = filter (\<lambda>p. fst p \<noteq> k) al"
    by (auto simp add: AList.delete_eq intro: filter_cong)
  with Cons show ?case
    by (auto intro: filter_cong)
qed

lemma check_task_completion_fields:
  "store (check_task_completion s) = store s"
  "task_queue (check_task_completion s) = task_queue s"
  "orchestrator_callbacks (check_task_completion s) = orchestrator_callbacks s"
  "env (check_task_completion s) = env s"
  "session_id (check_task_completion s) = session_id s"
  "execution_log (check_task_completion s) = execution_log s"
  "completed_tasks (check_task_completion s) =
     completed_tasks s @ map snd (filter (\<lambda>(k, a). finished s a) (active_tasks s))"
  "active_tasks (check_task_completion s) =
     filter (\<lambda>p. fst p \<notin> fst ` set (filter (\<lambda>(k, a). finished s a) (active_tasks s)))
       (active_tasks s)"
  by (simp_all add: check_task_completion_def Let_def delete_all_keys)

lemma check_task_completion_active_distinct:
  assumes "distinct (map fst (active_tasks s))"
  shows "active_tasks (check_task_completion s) =
           filter (\<lambda>(k, a). \<not> finished s a) (active_tasks s)"
proof -
  have "\<And>p. p \<in> set (active_tasks s) \<Longrightarrow>
          (fst p \<notin> fst ` set (filter (\<lambda>(k, a). finished s a) (active_tasks s)))
          = (\<not> finished s (snd p))"
  proof -
    fix p assume p: "p \<in> set (active_tasks s)"
    show "(fst p \<notin> fst ` set (filter (\<lambda>(k, a). finished s a) (active_tasks s)))
          = (\<not> finished s (snd p))"
    proof
      assume "fst p \<notin> fst ` set (filter (\<lambda>(k, a). finished s a) (active_tasks s))"
      with p show "\<not> finished s (snd p)"
        by (force simp: image_iff)
    next
      assume nf: "\<not> finished s (snd p)"
      show "fst p \<notin> fst ` set (filter (\<lambda>(k, a). finished s a) (active_tasks s))"
      proof
        assume "fst p \<in> fst ` set (filter (\<lambda>(k, a). finished s a) (active_tasks s))"
        then obtain q where q: "q \<in> set (active_tasks s)" "finished s (snd q)" "fst q = fst p"
          by (auto simp: image_iff)
        from assms p q(1,3) have "q = p"
          by (metis eq_key_imp_eq_value prod.collapse)
        with q(2) nf show False by simp
      qed
    qed
  qed
  then have "filter (\<lambda>p. fst p \<notin> fst ` set (filter (\<lambda>(k, a). finished s a) (active_tasks s)))
               (active_tasks s)
             = filter (\<lambda>p. \<not> finished s (snd p)) (active_tasks s)"
    by (intro filter_cong) simp_all
  then show ?thesis
    by (simp add: check_task_completion_fields case_prod_unfold)
qed

lemma check_task_completion_keeps:
  assumes "distinct (map fst (active_tasks s))" "(k, a) \<in> set (active_tasks s)"
    "\<not> finished s a"
  shows "(k, a) \<in> set (active_tasks (check_task_completion s))"
  using assms by (simp add: check_task_completion_active_distinct)

subsection \<open>Notifying the observers\<close>

lemma notify_one_fields:
  "store (notify_one r s cb) = store s"
  "task_queue (notify_one r s cb) = task_queue s"
  "active_tasks (notify_one r s cb) = active_tasks s"
  "completed_tasks (notify_one r s cb) = completed_tasks s"
  "orchestrator_callbacks (notify_one r s cb) = orchestrator_callbacks s"
  "session_id (notify_one r s cb) = session_id s"
  "env (notify_one r s cb) = snd (cb r (env s))"
  "execution_log (notify_one r s cb) =
     execution_log s @ (case fst (cb r (env s)) of None \<Rightarrow> []
                        | Some e \<Rightarrow> [orchestrator_notification_failed e])"
  by (simp_all add: notify_one_def log_event_def split: prod.splits option.splits)

lemma foldl_notify_fields:
  "store (foldl (notify_one r) s cbs) = store s"
  "task_queue (foldl (notify_one r) s cbs) = task_queue s"
  "active_tasks (foldl (notify_one r) s cbs) = active_tasks s"
  "completed_tasks (foldl (notify_one r) s cbs) = completed_tasks s"
  "orchestrator_callbacks (foldl (notify_one r) s cbs) = orchestrator_callbacks s"
  "session_id (foldl (notify_one r) s cbs) = session_id s"
  by (induction cbs arbitrary: s) (simp_all add: notify_one_fields)

lemma notify_orchestrator_fields:
  "store (notify_orchestrator r s) = store s"
  "task_queue (notify_orchestrator r s) = task_queue s"
  "active_tasks (notify_orchestrator r s) = active_tasks s"
  "completed_tasks (notify_orchestrator r s) = completed_tasks s"
  "orchestrator_callbacks (notify_orchestrator r s) = orchestrator_callbacks s"
  "session_id (notify_orchestrator r s) = session_id s"
  by (simp_all add: notify_orchestrator_def foldl_notify_fields)

lemma foldl_notify_env:
  "env (foldl (notify_one r) s cbs) = foldl (\<lambda>w cb. snd (cb r w)) (env s) cbs"
  by (induction cbs arbitrary: s) (simp_all add: notify_one_fields)

lemma foldl_notify_log:
  "execution_log (foldl (notify_one r) s cbs) =
     execution_log s @ map orchestrator_notification_failed (callback_errors r (env s) cbs)"
  by (induction cbs arbitrary: s) (simp_all add: notify_one_fields split: option.splits)

lemma notify_orchestrator_no_callbacks:
  "orchestrator_callbacks s = [] \<Longrightarrow> notify_orchestrator r s = s"
  by (simp add: notify_orchestrator_def)

subsection \<open>Progress reports\<close>

lemma determine_current_phase_labels: "determine_current_phase s \<in> phase_labels"
  by (simp add: determine_current_phase_def phase_labels_def)

lemma determine_current_phase_eq:
  "determine_current_phase s =
     (if length (completed_tasks s) = 0 then ''Discovery & Planning''
      else if length (completed_tasks s) < 2 * (length (task_queue s) + length (active_tasks s))
        then ''Core Implementation''
      else if length (completed_tasks s) < 4 * (length (task_queue s) + length (active_tasks s))
        then ''Validation & Security''
      else ''Integration & Completion'')"
proof -
  have a: "(real c < real q + real a + real c * 0.5) = (c < 2 * (q + a))" for c q a :: nat
  proof -
    have "(real c < real q + real a + real c * 0.5) = (real c < real (2 * (q + a)))"
      by (simp; linarith)
    then show ?thesis by (simp only: of_nat_less_iff)
  qed
  have b: "(real c < real q + real a + real c * 0.75) = (c < 4 * (q + a))" for c q a :: nat
  proof -
    have "(real c < real q + real a + real c * 0.75) = (real c < real (4 * (q + a)))"
      by (simp; linarith)
    then show ?thesis by (simp only: of_nat_less_iff)
  qed
  show ?thesis
    unfolding determine_current_phase_def a b by simp
qed

lemma settled_final_report: "settled (generate_final_report s) = settled (generate_progress_report s)"
  by (simp add: settled_def generate_final_report_def)

lemma settled_progress_report:
  assumes "history_finished s"
  shows "settled (generate_progress_report s) = length (completed_tasks s)"
proof -
  have "length (filter (\<lambda>a. status (st a) = COMPLETED) xs)
          + length (filter (\<lambda>a. status (st a) = FAILED) xs) = length xs"
    if "\<forall>a\<in>set xs. status (st a) = COMPLETED \<or> status (st a) = FAILED"
    for xs :: "addr list" and st :: "addr \<Rightarrow> AutonomousTask"
    using that by (induction xs) auto
  from this [of "completed_tasks s" "store s"] assms show ?thesis
    by (simp add: settled_def generate_progress_report_def history_finished_def list_all_iff
        finished_def)
qed

lemma blocked_tasks_zero:
  "no_blocked_active s \<Longrightarrow> blocked_tasks (generate_progress_report s) = 0"
  by (auto simp add: generate_progress_report_def no_blocked_active_def list_all_iff
      filter_empty_conv)

lemma card_union_overlap:
  assumes "finite A" "finite B" "x \<in> A" "x \<in> B"
  shows "card (A \<union> B) < card A + card B"
proof -
  have "card A + card B = card (A \<union> B) + card (A \<inter> B)"
    using assms(1,2) by (rule card_Un_Int)
  moreover have "0 < card (A \<inter> B)"
    using assms by (auto simp: card_gt_0_iff)
  ultimately show ?thesis by simp
qed

lemma known_tasks_overlap:
  assumes "a \<in> set (task_queue s)" "(k, a) \<in> set (active_tasks s)"
  shows "card (known_tasks s)
           < length (task_queue s) + length (active_tasks s) + length (completed_tasks s)"
proof -
  let ?A = "set (task_queue s)" and ?B = "snd ` set (active_tasks s)"
    and ?C = "set (completed_tasks s)"
  have "a \<in> ?B" using assms(2) by force
  with assms(1) have "card (?A \<union> ?B) < card ?A + card ?B"
    by (intro card_union_overlap) auto
  moreover have "card (?A \<union> ?B \<union> ?C) \<le> card (?A \<union> ?B) + card ?C"
    by (rule card_Un_le)
  moreover have "card ?A \<le> length (task_queue s)" "card ?C \<le> length (completed_tasks s)"
    by (rule card_length)+
  moreover have "card ?B \<le> length (active_tasks s)"
    using card_image_le [of "set (active_tasks s)" snd] card_length [of "active_tasks s"]
    by simp
  ultimately show ?thesis
    by (simp add: known_tasks_def)
qed

subsection \<open>One pass of the loop\<close>

lemma loop_iteration_eq:
  "loop_iteration ag s =
     (let ready = filter (is_ready s) (task_queue s);
          s3 = check_task_completion
                 (execute_all ag ready (s\<lparr> task_queue := filter (\<lambda>a. \<not> is_ready s a) (task_queue s) \<rparr>))
      in if ready \<noteq> [] then
           Inr (Some (generate_progress_report s3),
                notify_orchestrator (generate_progress_report s3) s3)
         else Inr (None, s3))"
  by (simp add: loop_iteration_def find_ready_tasks_eq execute_all_def Let_def)

lemma loop_iteration_returns: "\<exists>r s'. loop_iteration ag s = Inr (r, s')"
  by (simp add: loop_iteration_eq Let_def)

text \<open>Every report of the loop is a progress report of some state.\<close>

lemma loop_iteration_report:
  fixes s :: "'w AutonomousManager"
  assumes "loop_iteration ag s = Inr (Some r, s')"
  shows "\<exists>s3 :: 'w AutonomousManager. r = generate_progress_report s3"
proof -
  let ?s3 = "check_task_completion
      (execute_all ag (filter (is_ready s) (task_queue s))
         (s\<lparr> task_queue := filter (\<lambda>a. \<not> is_ready s a) (task_queue s) \<rparr>))"
  from assms have "r = generate_progress_report ?s3"
    by (auto simp add: loop_iteration_eq Let_def split: if_splits)
  then show ?thesis ..
qed

lemma loop_iteration_pass:
  "loop_iteration ag s =
     (if ready_now s \<noteq> [] then
        Inr (Some (generate_progress_report (pass_state ag s)),
             notify_orchestrator (generate_progress_report (pass_state ag s)) (pass_state ag s))
      else Inr (None, pass_state ag s))"
  by (simp add: loop_iteration_eq pass_state_def ready_now_def Let_def)

lemma loop_iteration_fields:
  assumes "loop_iteration ag s = Inr (r, s')"
  shows "store s' = store (pass_state ag s)"
    and "task_queue s' = task_queue (pass_state ag s)"
    and "active_tasks s' = active_tasks (pass_state ag s)"
    and "completed_tasks s' = completed_tasks (pass_state ag s)"
    and "r = None \<or> r = Some (generate_progress_report (pass_state ag s))"
  using assms
  by (auto simp add: loop_iteration_pass notify_orchestrator_fields split: if_splits)

lemma pass_state_store_other:
  "a \<notin> set (ready_now s) \<Longrightarrow> store (pass_state ag s) a = store s a"
  by (simp add: pass_state_def check_task_completion_fields execute_all_other)

lemma pass_state_identity:
  "task_id (store (pass_state ag s) a) = task_id (store s a)"
  "dependencies (store (pass_state ag s) a) = dependencies (store s a)"
  by (simp_all add: pass_state_def check_task_completion_fields execute_all_identity)

lemma pass_state_status:
  "a \<in> set (ready_now s) \<Longrightarrow>
     status (store (pass_state ag s) a) = COMPLETED
     \<or> status (store (pass_state ag s) a) = PENDING
     \<or> status (store (pass_state ag s) a) = FAILED"
  by (simp add: pass_state_def check_task_completion_fields execute_all_status)

lemma pass_state_queue:
  "\<exists>ys. task_queue (pass_state ag s) = filter (\<lambda>a. \<not> is_ready s a) (task_queue s) @ ys
      \<and> set ys \<subseteq> set (ready_now s) \<and> (distinct (ready_now s) \<longrightarrow> distinct ys)"
  using execute_all_queue [of ag "ready_now s"
      "s\<lparr> task_queue := filter (\<lambda>a. \<not> is_ready s a) (task_queue s) \<rparr>"]
  by (simp add: pass_state_def check_task_completion_fields)

lemma pass_state_active:
  assumes "(k, b) \<in> set (active_tasks (pass_state ag s))"
  shows "b \<in> set (ready_now s) \<or> (k, b) \<in> set (active_tasks s)"
proof -
  from assms have "(k, b) \<in> set (active_tasks (execute_all ag (ready_now s)
      (s\<lparr> task_queue := filter (\<lambda>a. \<not> is_ready s a) (task_queue s) \<rparr>)))"
    by (simp add: pass_state_def check_task_completion_fields)
  from execute_all_active [OF this] show ?thesis by simp
qed

lemma pass_state_completed:
  "\<exists>zs. completed_tasks (pass_state ag s) = completed_tasks s @ zs
      \<and> (\<forall>a\<in>set zs. finished (pass_state ag s) a)"
proof -
  let ?s2 = "execute_all ag (ready_now s)
      (s\<lparr> task_queue := filter (\<lambda>a. \<not> is_ready s a) (task_queue s) \<rparr>)"
  let ?zs = "map snd (filter (\<lambda>(k, a). finished ?s2 a) (active_tasks ?s2))"
  have "completed_tasks (pass_state ag s) = completed_tasks s @ ?zs"
    by (simp add: pass_state_def check_task_completion_fields execute_all_frame)
  moreover have "\<forall>a\<in>set ?zs. finished (pass_state ag s) a"
    by (auto simp add: pass_state_def finished_def check_task_completion_fields)
  ultimately show ?thesis by blast
qed

subsection \<open>What a pass preserves\<close>

lemma pass_state_distinct_queue:
  assumes "distinct (task_queue s)"
  shows "distinct (task_queue (pass_state ag s))"
proof -
  from assms have dr: "distinct (ready_now s)"
    by (simp add: ready_now_def)
  obtain ys where ys: "task_queue (pass_state ag s)
        = filter (\<lambda>a. \<not> is_ready s a) (task_queue s) @ ys"
      "set ys \<subseteq> set (ready_now s)" "distinct ys"
    using pass_state_queue [of ag s] dr by blast
  have "set (filter (\<lambda>a. \<not> is_ready s a) (task_queue s)) \<inter> set ys = {}"
    using ys(2) by (auto simp: ready_now_def)
  with assms ys(1,3) show ?thesis by simp
qed

lemma pass_state_no_blocked:
  assumes "no_blocked_active s"
  shows "no_blocked_active (pass_state ag s)"
proof -
  have "status (store (pass_state ag s) b) \<noteq> BLOCKED"
    if "(k, b) \<in> set (active_tasks (pass_state ag s))" for k b
  proof (cases "b \<in> set (ready_now s)")
    case True
    from pass_state_status [OF this, of ag] show ?thesis by auto
  next
    case False
    with pass_state_active [OF that] have "(k, b) \<in> set (active_tasks s)" by simp
    with assms have "status (store s b) \<noteq> BLOCKED"
      by (auto simp: no_blocked_active_def list_all_iff)
    with False show ?thesis by (simp add: pass_state_store_other)
  qed
  then show ?thesis
    by (auto simp: no_blocked_active_def list_all_iff)
qed

lemma pass_state_history:
  assumes "history_finished s"
  shows "history_finished (pass_state ag s)"
    and "length (completed_tasks s) \<le> length (completed_tasks (pass_state ag s))"
proof -
  obtain zs where zs: "completed_tasks (pass_state ag s) = completed_tasks s @ zs"
      "\<forall>a\<in>set zs. finished (pass_state ag s) a"
    using pass_state_completed by blast
  have "finished (pass_state ag s) a" if "a \<in> set (completed_tasks s)" for a
  proof -
    from assms that have f: "finished s a"
      by (simp add: history_finished_def list_all_iff)
    then have "\<not> is_ready s a"
      by (auto simp: finished_def is_ready_def)
    then have "a \<notin> set (ready_now s)"
      by (simp add: ready_now_def)
    with f show ?thesis
      by (simp add: finished_def pass_state_store_other)
  qed
  with zs show "history_finished (pass_state ag s)"
    by (auto simp: history_finished_def list_all_iff)
  from zs(1) show "length (completed_tasks s) \<le> length (completed_tasks (pass_state ag s))"
    by simp
qed

lemma pass_state_known_tasks: "known_tasks (pass_state ag s) \<subseteq> known_tasks s"
proof
  fix b assume "b \<in> known_tasks (pass_state ag s)"
  then consider "b \<in> set (task_queue (pass_state ag s))"
    | k where "(k, b) \<in> set (active_tasks (pass_state ag s))"
    | "b \<in> set (completed_tasks (pass_state ag s))"
    by (auto simp: known_tasks_def)
  then show "b \<in> known_tasks s"
  proof cases
    case 1
    with pass_state_queue [of ag s] show ?thesis
      by (auto simp: known_tasks_def ready_now_def)
  next
    case 2
    from pass_state_active [OF this] show ?thesis
      by (force simp: known_tasks_def ready_now_def)
  next
    case 3
    let ?s2 = "execute_all ag (ready_now s)
        (s\<lparr> task_queue := filter (\<lambda>a. \<not> is_ready s a) (task_queue s) \<rparr>)"
    from 3 have "b \<in> set (completed_tasks s) \<or> b \<in> snd ` set (active_tasks ?s2)"
      by (auto simp add: pass_state_def check_task_completion_fields execute_all_frame)
    then show ?thesis
    proof
      assume "b \<in> set (completed_tasks s)"
      then show ?thesis by (simp add: known_tasks_def)
    next
      assume "b \<in> snd ` set (active_tasks ?s2)"
      then obtain k where "(k, b) \<in> set (active_tasks ?s2)" by auto
      from execute_all_active [OF this] show ?thesis
        by (force simp: known_tasks_def ready_now_def)
    qed
  qed
qed

lemma pass_state_blocked_task:
  assumes "t \<in> set (task_queue s)" "d \<in> set (dependencies (store s t))"
    "d \<notin> completed_task_ids s"
  shows "t \<in> set (task_queue (pass_state ag s))"
    and "d \<in> set (dependencies (store (pass_state ag s) t))"
proof -
  from assms(2,3) have "\<not> is_ready s t"
    by (auto simp: is_ready_def deps_satisfied_subset)
  with assms(1) have "t \<in> set (filter (\<lambda>a. \<not> is_ready s a) (task_queue s))"
    by simp
  with pass_state_queue [of ag s] show "t \<in> set (task_queue (pass_state ag s))"
    by auto
  from assms(2) show "d \<in> set (dependencies (store (pass_state ag s) t))"
    by (simp add: pass_state_identity)
qed

lemma loop_iteration_history:
  assumes "loop_iteration ag s = Inr (r, s')" "history_finished s"
  shows "history_finished s'"
    and "length (completed_tasks s) \<le> length (completed_tasks s')"
    and "\<forall>x\<in>set (report_list r). settled x = length (completed_tasks s')"
proof -
  note f = loop_iteration_fields [OF assms(1)]
  note h = pass_state_history [OF assms(2), of ag]
  from h(1) f(1,4) show "history_finished s'"
    by (simp add: history_finished_def finished_def [abs_def])
  from h(2) f(4) show "length (completed_tasks s) \<le> length (completed_tasks s')"
    by simp
  from f(5) f(4) settled_progress_report [OF h(1)]
  show "\<forall>x\<in>set (report_list r). settled x = length (completed_tasks s')"
    by (auto simp: report_list_def)
qed

lemma loop_iteration_no_blocked:
  assumes "loop_iteration ag s = Inr (r, s')" "no_blocked_active s"
  shows "no_blocked_active s'"
    and "\<forall>x\<in>set (report_list r). blocked_tasks x = 0"
proof -
  note f = loop_iteration_fields [OF assms(1)]
  note h = pass_state_no_blocked [OF assms(2), of ag]
  from h f(1,3) show "no_blocked_active s'"
    by (simp add: no_blocked_active_def)
  from f(5) blocked_tasks_zero [OF h]
  show "\<forall>x\<in>set (report_list r). blocked_tasks x = 0"
    by (auto simp: report_list_def)
qed

subsection \<open>Status changes\<close>

lemma sets_no_blocked_same_store: "store s' = store s \<Longrightarrow> sets_no_blocked s s'"
  by (simp add: sets_no_blocked_def)

lemma sets_no_blocked_execute_task: "sets_no_blocked s (execute_task ag a s)"
  by (auto simp add: sets_no_blocked_def execute_task_fields after_error_keeps after_success_keeps
      split: option.splits if_splits)

lemma sets_no_blocked_pass: "sets_no_blocked s (pass_state ag s)"
proof -
  have "status (store (pass_state ag s) a) = status (store s a)"
    if "status (store (pass_state ag s) a) = BLOCKED \<or> status (store (pass_state ag s) a) = CANCELLED"
    for a
  proof (cases "a \<in> set (ready_now s)")
    case True
    from pass_state_status [OF this, of ag] that show ?thesis by auto
  next
    case False
    then show ?thesis by (simp add: pass_state_store_other)
  qed
  then show ?thesis
    by (simp add: sets_no_blocked_def)
qed

lemma status_step_mark:
  "status (store s a) = PENDING \<Longrightarrow> status_step s (mark_in_progress a s)"
  by (simp add: status_step_def mark_in_progress_fields legal_edge_def)

lemma status_step_attempt:
  "status (store s a) = IN_PROGRESS \<Longrightarrow> status_step s (attempt ag a s)"
  by (simp add: status_step_def attempt_fields legal_edge_def after_error_keeps after_success_keeps
      split: option.splits)

lemma nth_not_in_take:
  assumes "distinct xs" "i < length xs"
  shows "xs ! i \<notin> set (take i xs)"
proof -
  have "xs = take i xs @ xs ! i # drop (Suc i) xs"
    using assms(2) by (rule id_take_nth_drop)
  then have "distinct (take i xs @ xs ! i # drop (Suc i) xs)"
    using assms(1) by simp
  then show ?thesis by simp
qed

subsection \<open>The loop and its prefixes\<close>

lemma autonomous_loop_exit:
  "\<not> loop_condition s \<Longrightarrow> autonomous_loop ag s reps = Some (Inr (reps, s))"
  by (simp add: autonomous_loop.simps)

lemma autonomous_loop_step:
  "loop_condition s \<Longrightarrow> loop_iteration ag s = Inr (r, s') \<Longrightarrow>
     autonomous_loop ag s reps = autonomous_loop ag s' (reps @ report_list r)"
  by (subst autonomous_loop.simps) simp

lemma loop_prefix_step:
  "loop_condition s \<Longrightarrow> loop_iteration ag s = Inr (r, s') \<Longrightarrow>
     loop_prefix (Suc n) ag s reps = loop_prefix n ag s' (reps @ report_list r)"
  by simp

lemma autonomous_loop_prefix:
  assumes "autonomous_loop ag s reps = Some res"
  shows "\<exists>n reps' s'. res = Inr (reps', s') \<and> loop_prefix n ag s reps = Inr (reps', s')
        \<and> \<not> loop_condition s'"
proof (rule autonomous_loop.raw_induct
    [where P = "\<lambda>ag s reps res. \<exists>n reps' s'. res = Inr (reps', s')
        \<and> loop_prefix n ag s reps = Inr (reps', s') \<and> \<not> loop_condition s'", OF _ assms])
  fix loop :: "'a agent \<Rightarrow> 'a AutonomousManager \<Rightarrow> ExecutionReport list
     \<Rightarrow> (py_error + (ExecutionReport list \<times> 'a AutonomousManager)) option"
  fix ag s reps res
  assume IH: "\<And>ag s reps y. loop ag s reps = Some y \<Longrightarrow>
        \<exists>n reps' s'. y = Inr (reps', s') \<and> loop_prefix n ag s reps = Inr (reps', s')
          \<and> \<not> loop_condition s'"
    and body: "(if loop_condition s then
           (case loop_iteration ag s of
              Inl e \<Rightarrow> Some (Inl e)
            | Inr (r, s') \<Rightarrow> loop ag s' (reps @ report_list r))
         else Some (Inr (reps, s))) = Some res"
  show "\<exists>n reps' s'. res = Inr (reps', s') \<and> loop_prefix n ag s reps = Inr (reps', s')
          \<and> \<not> loop_condition s'"
  proof (cases "loop_condition s")
    case False
    with body have "res = Inr (reps, s)" by simp
    with False show ?thesis
      using loop_prefix.simps(1) by blast
  next
    case True
    obtain r s1 where it: "loop_iteration ag s = Inr (r, s1)"
      using loop_iteration_returns by blast
    with True body have "loop ag s1 (reps @ report_list r) = Some res"
      by simp
    from IH [OF this] obtain n reps' s' where
      n: "res = Inr (reps', s')" "loop_prefix n ag s1 (reps @ report_list r) = Inr (reps', s')"
         "\<not> loop_condition s'"
      by blast
    from True it n(2) have "loop_prefix (Suc n) ag s reps = Inr (reps', s')"
      by simp
    with n(1,3) show ?thesis by blast
  qed
qed

lemma prefix_autonomous_loop:
  "loop_prefix n ag s reps = Inr (reps', s') \<Longrightarrow> \<not> loop_condition s' \<Longrightarrow>
     autonomous_loop ag s reps = Some (Inr (reps', s'))"
proof (induction n arbitrary: s reps)
  case 0
  then show ?case by (simp add: autonomous_loop_exit)
next
  case (Suc n)
  show ?case
  proof (cases "loop_condition s")
    case False
    with Suc.prems show ?thesis by (simp add: autonomous_loop_exit)
  next
    case True
    obtain r s1 where it: "loop_iteration ag s = Inr (r, s1)"
      using loop_iteration_returns by blast
    with True Suc.prems have "loop_prefix n ag s1 (reps @ report_list r) = Inr (reps', s')"
      by (simp add: loop_prefix_step)
    from Suc.IH [OF this Suc.prems(2)] True it show ?thesis
      by (simp add: autonomous_loop_step)
  qed
qed

lemma start_autonomous_execution_Some:
  "start_autonomous_execution ag s = Some (Inr (final_report, reports, s')) \<Longrightarrow>
     \<exists>s1. autonomous_loop ag (log_event (execution_started (length (task_queue s)) (session_id s)) s) []
            = Some (Inr (reports, s1))
        \<and> final_report = generate_final_report s1 \<and> s' = notify_orchestrator final_report s1"
  by (auto simp add: start_autonomous_execution_def Let_def split: option.splits sum.splits)

lemma start_autonomous_execution_prefix:
  assumes "start_autonomous_execution ag s = Some (Inr (final_report, reports, s'))"
  shows "\<exists>n s1. loop_prefix n ag
             (log_event (execution_started (length (task_queue s)) (session_id s)) s) []
           = Inr (reports, s1)
      \<and> \<not> loop_condition s1 \<and> final_report = generate_final_report s1
      \<and> s' = notify_orchestrator final_report s1"
proof -
  from start_autonomous_execution_Some [OF assms] obtain s1 where
    s1: "autonomous_loop ag (log_event (execution_started (length (task_queue s)) (session_id s)) s) []
            = Some (Inr (reports, s1))"
      "final_report = generate_final_report s1" "s' = notify_orchestrator final_report s1"
    by blast
  from autonomous_loop_prefix [OF s1(1)] s1(2,3) show ?thesis
    by auto
qed

lemma run_single_pass:
  assumes "loop_condition (log_event (execution_started (length (task_queue s)) (session_id s)) s)"
    and "loop_iteration ag (log_event (execution_started (length (task_queue s)) (session_id s)) s)
           = Inr (r, s1)"
    and "\<not> loop_condition s1"
  shows "start_autonomous_execution ag s =
           Some (Inr (generate_final_report s1, report_list r,
                      notify_orchestrator (generate_final_report s1) s1))"
proof -
  have "autonomous_loop ag (log_event (execution_started (length (task_queue s)) (session_id s)) s) []
          = Some (Inr (report_list r, s1))"
    using autonomous_loop_step [OF assms(1,2), of "[]"] autonomous_loop_exit [OF assms(3)]
    by simp
  then show ?thesis
    by (simp add: start_autonomous_execution_def Let_def)
qed

subsection \<open>Invariants along a run\<close>

lemma loop_prefix_reports:
  fixes s :: "'w AutonomousManager"
  assumes "loop_prefix n ag s reps = Inr (reps', s')"
  shows "\<exists>new. reps' = reps @ new
           \<and> (\<forall>r\<in>set new. \<exists>s3 :: 'w AutonomousManager. r = generate_progress_report s3)"
  using assms
proof (induction n arbitrary: s reps)
  case 0
  then show ?case by simp
next
  case (Suc n)
  show ?case
  proof (cases "loop_condition s")
    case False
    with Suc.prems show ?thesis by simp
  next
    case True
    obtain r s1 where it: "loop_iteration ag s = Inr (r, s1)"
      using loop_iteration_returns by blast
    with True Suc.prems have "loop_prefix n ag s1 (reps @ report_list r) = Inr (reps', s')"
      by simp
    from Suc.IH [OF this] obtain new where
      new: "reps' = (reps @ report_list r) @ new"
        "\<forall>r\<in>set new. \<exists>s3 :: 'w AutonomousManager. r = generate_progress_report s3"
      by blast
    have one: "\<forall>x\<in>set (report_list r). \<exists>s3 :: 'w AutonomousManager. x = generate_progress_report s3"
    proof (cases r)
      case None
      then show ?thesis by (simp add: report_list_def)
    next
      case (Some x)
      with it loop_iteration_report [of ag s x s1] show ?thesis
        by (simp add: report_list_def)
    qed
    have "reps' = reps @ (report_list r @ new)"
      using new(1) by simp
    moreover have "\<forall>r\<in>set (report_list r @ new).
        \<exists>s3 :: 'w AutonomousManager. r = generate_progress_report s3"
      using one new(2) by auto
    ultimately show ?thesis by blast
  qed
qed

lemma loop_prefix_settled:
  assumes "loop_prefix n ag s reps = Inr (reps', s')"
    and "history_finished s"
    and "sorted_wrt (\<lambda>r1 r2. settled r1 \<le> settled r2) reps"
    and "\<forall>r\<in>set reps. settled r \<le> length (completed_tasks s)"
  shows "history_finished s' \<and> sorted_wrt (\<lambda>r1 r2. settled r1 \<le> settled r2) reps'
     \<and> (\<forall>r\<in>set reps'. settled r \<le> length (completed_tasks s'))"
  using assms
proof (induction n arbitrary: s reps)
  case 0
  then show ?case by simp
next
  case (Suc n)
  show ?case
  proof (cases "loop_condition s")
    case False
    with Suc.prems show ?thesis by simp
  next
    case True
    obtain r s1 where it: "loop_iteration ag s = Inr (r, s1)"
      using loop_iteration_returns by blast
    note h = loop_iteration_history [OF it Suc.prems(2)]
    from True it Suc.prems(1)
    have run: "loop_prefix n ag s1 (reps @ report_list r) = Inr (reps', s')"
      by simp
    have srt: "sorted_wrt (\<lambda>r1 r2. settled r1 \<le> settled r2) (reps @ report_list r)"
      using Suc.prems(3,4) h(2,3)
      by (cases r) (auto simp: report_list_def sorted_wrt_append)
    have bnd: "\<forall>x\<in>set (reps @ report_list r). settled x \<le> length (completed_tasks s1)"
      using Suc.prems(4) h(2,3) by fastforce
    from Suc.IH [OF run h(1) srt bnd] show ?thesis .
  qed
qed

lemma loop_prefix_no_blocked:
  assumes "loop_prefix n ag s reps = Inr (reps', s')"
    and "no_blocked_active s"
    and "\<forall>r\<in>set reps. blocked_tasks r = 0"
  shows "no_blocked_active s' \<and> (\<forall>r\<in>set reps'. blocked_tasks r = 0)"
  using assms
proof (induction n arbitrary: s reps)
  case 0
  then show ?case by simp
next
  case (Suc n)
  show ?case
  proof (cases "loop_condition s")
    case False
    with Suc.prems show ?thesis by simp
  next
    case True
    obtain r s1 where it: "loop_iteration ag s = Inr (r, s1)"
      using loop_iteration_returns by blast
    note h = loop_iteration_no_blocked [OF it Suc.prems(2)]
    from True it Suc.prems(1)
    have run: "loop_prefix n ag s1 (reps @ report_list r) = Inr (reps', s')"
      by simp
    have "\<forall>x\<in>set (reps @ report_list r). blocked_tasks x = 0"
      using Suc.prems(3) h(2) by auto
    from Suc.IH [OF run h(1) this] show ?thesis .
  qed
qed

lemma loop_prefix_history_finished:
  assumes "loop_prefix n ag s reps = Inr (reps', s')" "history_finished s"
  shows "history_finished s'"
  using assms
proof (induction n arbitrary: s reps)
  case 0
  then show ?case by simp
next
  case (Suc n)
  show ?case
  proof (cases "loop_condition s")
    case False
    with Suc.prems show ?thesis by simp
  next
    case True
    obtain r s1 where it: "loop_iteration ag s = Inr (r, s1)"
      using loop_iteration_returns by blast
    from True it Suc.prems(1)
    have run: "loop_prefix n ag s1 (reps @ report_list r) = Inr (reps', s')"
      by simp
    have "history_finished s1"
      using it Suc.prems(2) by (rule loop_iteration_history(1))
    from Suc.IH [OF run this] show ?thesis .
  qed
qed

lemma loop_prefix_distinct_queue:
  assumes "loop_prefix n ag s reps = Inr (reps', s')" "distinct (task_queue s)"
  shows "distinct (task_queue s')"
  using assms
proof (induction n arbitrary: s reps)
  case 0
  then show ?case by simp
next
  case (Suc n)
  show ?case
  proof (cases "loop_condition s")
    case False
    with Suc.prems show ?thesis by simp
  next
    case True
    obtain r s1 where it: "loop_iteration ag s = Inr (r, s1)"
      using loop_iteration_returns by blast
    from True it Suc.prems(1)
    have run: "loop_prefix n ag s1 (reps @ report_list r) = Inr (reps', s')"
      by simp
    have "distinct (task_queue s1)"
      using loop_iteration_fields(2) [OF it] pass_state_distinct_queue [OF Suc.prems(2), of ag]
      by simp
    from Suc.IH [OF run this] show ?thesis .
  qed
qed

lemma loop_prefix_blocked_task:
  assumes "loop_prefix n ag s reps = Inr (reps', s')"
    and "t \<in> set (task_queue s)" "d \<in> set (dependencies (store s t))"
    and "\<And>m reps'' s''. loop_prefix m ag s reps = Inr (reps'', s'') \<Longrightarrow> d \<notin> completed_task_ids s''"
  shows "t \<in> set (task_queue s')"
  using assms
proof (induction n arbitrary: s reps)
  case 0
  then show ?case by simp
next
  case (Suc n)
  have c: "loop_condition s"
    using Suc.prems(2) by (auto simp: loop_condition_def)
  obtain r s1 where it: "loop_iteration ag s = Inr (r, s1)"
    using loop_iteration_returns by blast
  from c it Suc.prems(1)
  have run: "loop_prefix n ag s1 (reps @ report_list r) = Inr (reps', s')"
    by simp
  have "d \<notin> completed_task_ids s"
    using Suc.prems(4) [of 0 reps s] by simp
  note b = pass_state_blocked_task [OF Suc.prems(2,3) this, of ag]
  note f = loop_iteration_fields [OF it]
  have t1: "t \<in> set (task_queue s1)" using b(1) f(2) by simp
  have d1: "d \<in> set (dependencies (store s1 t))" using b(2) f(1) by simp
  have later: "d \<notin> completed_task_ids s''"
    if "loop_prefix m ag s1 (reps @ report_list r) = Inr (reps'', s'')" for m reps'' s''
  proof -
    from c it that have "loop_prefix (Suc m) ag s reps = Inr (reps'', s'')"
      by simp
    then show ?thesis by (rule Suc.prems(4))
  qed
  from Suc.IH [OF run t1 d1 later] show ?case .
qed

lemma loop_prefix_known_tasks:
  assumes "loop_prefix n ag s reps = Inr (reps', s')"
  shows "known_tasks s' \<subseteq> known_tasks s \<and> (\<forall>b. task_id (store s' b) = task_id (store s b))"
  using assms
proof (induction n arbitrary: s reps)
  case 0
  then show ?case by simp
next
  case (Suc n)
  show ?case
  proof (cases "loop_condition s")
    case False
    with Suc.prems show ?thesis by simp
  next
    case True
    obtain r s1 where it: "loop_iteration ag s = Inr (r, s1)"
      using loop_iteration_returns by blast
    from True it Suc.prems
    have run: "loop_prefix n ag s1 (reps @ report_list r) = Inr (reps', s')"
      by simp
    note f = loop_iteration_fields [OF it]
    have "known_tasks s1 = known_tasks (pass_state ag s)"
      using f(2,3,4) by (simp add: known_tasks_def)
    with pass_state_known_tasks [of ag s] have k: "known_tasks s1 \<subseteq> known_tasks s"
      by simp
    have i: "task_id (store s1 b) = task_id (store s b)" for b
      using f(1) by (simp add: pass_state_identity)
    from Suc.IH [OF run] k i show ?thesis
      by auto
  qed
qed

lemma dangling_never_completed:
  assumes "d \<notin> (\<lambda>b. task_id (store s b)) ` known_tasks s"
    and "loop_prefix n ag s reps = Inr (reps', s')"
  shows "d \<notin> completed_task_ids s'"
proof
  assume "d \<in> completed_task_ids s'"
  then obtain b where b: "b \<in> set (completed_tasks s')" "d = task_id (store s' b)"
    by (auto simp: completed_task_ids_def)
  from loop_prefix_known_tasks [OF assms(2)] b
  have "b \<in> known_tasks s" "d = task_id (store s b)"
    by (auto simp: known_tasks_def)
  with assms(1) show False by blast
qed

subsection \<open>The retry law of the code\<close>

lemma attempts_simps:
  "attempts tid [] = 0"
  "attempts tid (xs @ ys) = attempts tid xs + attempts tid ys"
  "attempts tid (e # xs) = (if is_start_of tid e then 1 else 0) + attempts tid xs"
  by (simp_all add: attempts_def)

lemma attempts_notifications: "attempts tid (map orchestrator_notification_failed es) = 0"
  by (induction es) (simp_all add: attempts_simps)

lemma attempts_notify:
  "attempts tid (execution_log (notify_orchestrator r s)) = attempts tid (execution_log s)"
  by (simp add: notify_orchestrator_def foldl_notify_log attempts_simps attempts_notifications)

lemma sole_task_pass:
  assumes "sole_task s a" "always_raises ag"
  shows "attempts (task_id (store s a)) (execution_log (pass_state ag s))
           = attempts (task_id (store s a)) (execution_log s) + 1"
    and "task_id (store (pass_state ag s) a) = task_id (store s a)"
    and "max_retry_attempts (store (pass_state ag s) a) = max_retry_attempts (store s a)"
    and "retry_count (store (pass_state ag s) a) = retry_count (store s a) + 1"
    and "retry_allowed (store s a) \<Longrightarrow> sole_task (pass_state ag s) a"
    and "\<not> retry_allowed (store s a) \<Longrightarrow>
           \<not> loop_condition (pass_state ag s) \<and> status (store (pass_state ag s) a) = FAILED"
    and "ready_now s \<noteq> []"
proof -
  let ?s1 = "s\<lparr> task_queue := [] \<rparr>"
  let ?s2 = "execute_task ag a ?s1"
  from assms(1) have q: "task_queue s = [a]" and r: "is_ready s a"
    and act: "active_tasks s = [] \<or> active_tasks s = [(task_id (store s a), a)]"
    by (simp_all add: sole_task_def)
  from q r have rn: "ready_now s = [a]"
    by (simp add: ready_now_def)
  then show "ready_now s \<noteq> []" by simp
  from q r rn have ps: "pass_state ag s = check_task_completion ?s2"
    by (simp add: pass_state_def execute_all_simps)
  from assms(2) obtain e where e: "fst (ag (in_progress (store s a)) (env s)) = Some e"
    by (auto simp: always_raises_def)
  have st: "store ?s2 = (store s)(a := after_error e (in_progress (store s a)))"
    using e by (simp add: execute_task_fields)
  have qu: "task_queue ?s2 = (if retry_allowed (store s a) then [a] else [])"
    using e by (simp add: execute_task_fields)
  have ac: "active_tasks ?s2 = [(task_id (store s a), a)]"
    using act by (auto simp add: execute_task_fields)
  have co: "completed_tasks ?s2 = completed_tasks s"
    by (simp add: execute_task_fields)
  have fi: "finished ?s2 a \<longleftrightarrow> \<not> retry_allowed (store s a)"
    by (simp add: finished_def st after_error_keeps in_progress_keeps)
  show "attempts (task_id (store s a)) (execution_log (pass_state ag s))
           = attempts (task_id (store s a)) (execution_log s) + 1"
    using e by (simp add: ps check_task_completion_fields execute_task_log attempts_simps)
  show "task_id (store (pass_state ag s) a) = task_id (store s a)"
    by (simp add: pass_state_identity)
  show "max_retry_attempts (store (pass_state ag s) a) = max_retry_attempts (store s a)"
    by (simp add: ps check_task_completion_fields st after_error_keeps in_progress_keeps)
  show "retry_count (store (pass_state ag s) a) = retry_count (store s a) + 1"
    by (simp add: ps check_task_completion_fields st after_error_keeps in_progress_keeps)
  show "sole_task (pass_state ag s) a" if ra: "retry_allowed (store s a)"
  proof -
    have "task_queue (pass_state ag s) = [a]"
      using ra by (simp add: ps check_task_completion_fields qu)
    moreover have "active_tasks (pass_state ag s) = [(task_id (store (pass_state ag s) a), a)]"
      using ra fi by (simp add: ps check_task_completion_fields ac st after_error_keeps
          in_progress_keeps)
    moreover have "completed_tasks (pass_state ag s) = completed_tasks s"
      using ra fi by (simp add: ps check_task_completion_fields ac co)
    then have "completed_task_ids (pass_state ag s) = completed_task_ids s"
      by (simp add: completed_task_ids_def pass_state_identity)
    then have "is_ready (pass_state ag s) a"
      using r ra
      by (simp add: is_ready_def ps check_task_completion_fields st after_error_keeps
          in_progress_keeps deps_satisfied_def)
    ultimately show ?thesis
      by (simp add: sole_task_def)
  qed
  show "\<not> loop_condition (pass_state ag s) \<and> status (store (pass_state ag s) a) = FAILED"
    if nr: "\<not> retry_allowed (store s a)"
    using nr fi
    by (simp add: loop_condition_def ps check_task_completion_fields qu ac st after_error_keeps
        in_progress_keeps)
qed

lemma sole_task_notified:
  "sole_task (notify_orchestrator r s) a = sole_task s a"
  by (simp add: sole_task_def is_ready_def completed_task_ids_def notify_orchestrator_fields)

lemma sole_task_loop:
  assumes "sole_task s a" "always_raises ag"
    and "k = nat (max_retry_attempts (store s a) - retry_count (store s a) - 1)"
  shows "\<exists>reps' s'. autonomous_loop ag s reps = Some (Inr (reps', s'))
     \<and> status (store s' a) = FAILED
     \<and> attempts (task_id (store s a)) (execution_log s')
         = attempts (task_id (store s a)) (execution_log s) + 1 + k"
  using assms
proof (induction k arbitrary: s reps)
  case 0
  note p = sole_task_pass [OF "0.prems"(1,2)]
  from "0.prems"(3) have nr: "\<not> retry_allowed (store s a)"
    by (simp add: retry_allowed_def)
  let ?r = "generate_progress_report (pass_state ag s)"
  let ?s' = "notify_orchestrator ?r (pass_state ag s)"
  have c: "loop_condition s"
    using "0.prems"(1) by (simp add: loop_condition_def sole_task_def)
  have it: "loop_iteration ag s = Inr (Some ?r, ?s')"
    using p(7) by (simp add: loop_iteration_pass)
  have ex: "\<not> loop_condition ?s'"
    using p(6) [OF nr] by (simp add: loop_condition_def notify_orchestrator_fields)
  have "autonomous_loop ag s reps = Some (Inr (reps @ [?r], ?s'))"
    using autonomous_loop_step [OF c it, of reps] autonomous_loop_exit [OF ex, of ag]
    by (simp add: report_list_def)
  moreover have "status (store ?s' a) = FAILED"
    using p(6) [OF nr] by (simp add: notify_orchestrator_fields)
  moreover have "attempts (task_id (store s a)) (execution_log ?s')
      = attempts (task_id (store s a)) (execution_log s) + 1 + 0"
    using p(1) by (simp add: attempts_notify)
  ultimately show ?case by blast
next
  case (Suc k)
  note p = sole_task_pass [OF Suc.prems(1,2)]
  from Suc.prems(3) have ra: "retry_allowed (store s a)"
    by (simp add: retry_allowed_def)
  let ?r = "generate_progress_report (pass_state ag s)"
  let ?s' = "notify_orchestrator ?r (pass_state ag s)"
  have c: "loop_condition s"
    using Suc.prems(1) by (simp add: loop_condition_def sole_task_def)
  have it: "loop_iteration ag s = Inr (Some ?r, ?s')"
    using p(7) by (simp add: loop_iteration_pass)
  have st: "store ?s' = store (pass_state ag s)"
    by (simp add: notify_orchestrator_fields)
  have sole: "sole_task ?s' a"
    using p(5) [OF ra] by (simp add: sole_task_notified)
  have k: "k = nat (max_retry_attempts (store ?s' a) - retry_count (store ?s' a) - 1)"
    using Suc.prems(3) by (simp add: st p(3,4))
  from Suc.IH [OF sole Suc.prems(2) k, of "reps @ [?r]"] obtain reps' s'' where
    run: "autonomous_loop ag ?s' (reps @ [?r]) = Some (Inr (reps', s''))"
    and f: "status (store s'' a) = FAILED"
    and n: "attempts (task_id (store ?s' a)) (execution_log s'')
         = attempts (task_id (store ?s' a)) (execution_log ?s') + 1 + k"
    by blast
  have "autonomous_loop ag s reps = Some (Inr (reps', s''))"
    using autonomous_loop_step [OF c it, of reps] run by (simp add: report_list_def)
  moreover have "attempts (task_id (store s a)) (execution_log s'')
      = attempts (task_id (store s a)) (execution_log s) + 1 + Suc k"
    using n p(1) by (simp add: st p(2) attempts_notify)
  ultimately show ?case
    using f by blast
qed

text \<open>
  What the code does with a task whose agent call always raises: it starts the task
  \<open>max_retry_attempts\<close> times, and once when \<open>max_retry_attempts\<close> is below one.
\<close>

lemma failing_task_retry_law:
  assumes "task_queue s = [a]" "active_tasks s = []" "is_ready s a"
    and "retry_count (store s a) = 0" "always_raises call_agent"
  shows "\<exists>final_report reports s'.
       start_autonomous_execution call_agent s = Some (Inr (final_report, reports, s'))
     \<and> status (store s' a) = FAILED
     \<and> int (attempts (task_id (store s a)) (execution_log s'))
         = int (attempts (task_id (store s a)) (execution_log s))
           + max 1 (max_retry_attempts (store s a))"
proof -
  let ?s0 = "log_event (execution_started (length (task_queue s)) (session_id s)) s"
  have sole: "sole_task ?s0 a"
    using assms(1,2,3)
    by (simp add: sole_task_def log_event_fields is_ready_def completed_task_ids_def)
  from sole_task_loop [OF sole assms(5) refl, of "[]"] obtain reps s1 where
    run: "autonomous_loop call_agent ?s0 [] = Some (Inr (reps, s1))"
    and f: "status (store s1 a) = FAILED"
    and n: "attempts (task_id (store ?s0 a)) (execution_log s1)
         = attempts (task_id (store ?s0 a)) (execution_log ?s0) + 1
           + nat (max_retry_attempts (store ?s0 a) - retry_count (store ?s0 a) - 1)"
    by blast
  let ?f = "generate_final_report s1"
  have "start_autonomous_execution call_agent s = Some (Inr (?f, reps, notify_orchestrator ?f s1))"
    using run by (simp add: start_autonomous_execution_def Let_def)
  moreover have "status (store (notify_orchestrator ?f s1) a) = FAILED"
    using f by (simp add: notify_orchestrator_fields)
  moreover have "int (attempts (task_id (store s a)) (execution_log (notify_orchestrator ?f s1)))
         = int (attempts (task_id (store s a)) (execution_log s))
           + max 1 (max_retry_attempts (store s a))"
    using n assms(4) by (simp add: attempts_notify log_event_fields attempts_simps)
  ultimately show ?thesis by blast
qed

section \<open>The example runs\<close>

lemma fresh_manager_fields:
  "task_queue (fresh_manager st as) = as"
  "active_tasks (fresh_manager st as) = []"
  "completed_tasks (fresh_manager st as) = []"
  "orchestrator_callbacks (fresh_manager st as) = []"
  "store (fresh_manager st as) = st"
  "env (fresh_manager st as) = ()"
  "session_id (fresh_manager st as) = ''session''"
proof -
  have q: "task_queue (add_tasks as s) = task_queue s @ as" for s :: "unit AutonomousManager"
    by (induction as arbitrary: s) (simp_all add: log_event_fields)
  have r: "active_tasks (add_tasks as s) = active_tasks s
      \<and> completed_tasks (add_tasks as s) = completed_tasks s
      \<and> orchestrator_callbacks (add_tasks as s) = orchestrator_callbacks s
      \<and> store (add_tasks as s) = store s \<and> session_id (add_tasks as s) = session_id s"
    for s :: "unit AutonomousManager"
    by (induction as arbitrary: s) (simp_all add: log_event_fields)
  show "task_queue (fresh_manager st as) = as"
    by (simp add: fresh_manager_def q init_manager_def)
  show "active_tasks (fresh_manager st as) = []"
    by (simp add: fresh_manager_def r init_manager_def)
  show "completed_tasks (fresh_manager st as) = []"
    by (simp add: fresh_manager_def r init_manager_def)
  show "orchestrator_callbacks (fresh_manager st as) = []"
    by (simp add: fresh_manager_def r init_manager_def)
  show "store (fresh_manager st as) = st"
    by (simp add: fresh_manager_def r init_manager_def)
  show "env (fresh_manager st as) = ()"
    by simp
  show "session_id (fresh_manager st as) = ''session''"
    by (simp add: fresh_manager_def r init_manager_def)
qed

lemmas field_rules =
  fresh_manager_fields check_task_completion_fields notify_orchestrator_fields
  execute_all_simps execute_task_fields execute_all_frame log_event_fields

lemmas example_defs = is_ready_def completed_task_ids_def deps_satisfied_def finished_def
  in_progress_def after_success_def after_error_def retry_allowed_def
  plain_task_def single_store_def quiet_agent_def failing_agent_def

lemma one_pending_run:
  "\<exists>s1 r. start_autonomous_execution quiet_agent one_pending =
       Some (Inr (generate_final_report s1, [r], notify_orchestrator (generate_final_report s1) s1))
     \<and> current_phase r = ''Integration & Completion''"
proof -
  let ?s0 = "log_event (execution_started (length (task_queue one_pending)) (session_id one_pending))
               one_pending"
  obtain r s1 where it: "loop_iteration quiet_agent ?s0 = Inr (r, s1)"
    using loop_iteration_returns by blast
  have c0: "loop_condition ?s0"
    by (simp add: loop_condition_def one_pending_def field_rules)
  from it have c1: "\<not> loop_condition s1"
    by (auto simp add: loop_iteration_eq loop_condition_def one_pending_def field_rules example_defs
        Let_def split: if_splits)
  from it obtain x where x: "r = Some x" "current_phase x = ''Integration & Completion''"
    by (auto simp add: loop_iteration_eq one_pending_def field_rules example_defs
        Let_def generate_progress_report_def determine_current_phase_eq split: if_splits)
  from run_single_pass [OF c0 it c1] x show ?thesis
    by (auto simp: report_list_def)
qed

lemma observed_manager_fields:
  "orchestrator_callbacks observed_manager =
     [observer ''first'' None, observer ''second'' (Some ''observer down''), observer ''third'' None]"
  "env observed_manager = []"
  "completed_tasks observed_manager = []"
  by (simp_all add: observed_manager_def register_orchestrator_callback_def init_manager_def
      log_event_def)

lemma stuck_manager_facts:
  "0 \<in> set (task_queue stuck_manager)"
  "''ghost'' \<in> set (dependencies (store stuck_manager 0))"
  "''ghost'' \<notin> (\<lambda>b. task_id (store stuck_manager b)) ` known_tasks stuck_manager"
  by (simp_all add: stuck_manager_def field_rules known_tasks_def single_store_def plain_task_def)

lemma chain_manager_pass1:
  "ready_now chain_manager = [0]"
  "task_queue chain_pass1 = [1]"
  "active_tasks chain_pass1 = []"
  "completed_tasks chain_pass1 = [0]"
  "store chain_pass1 = chain_store(0 := after_success (in_progress (plain_task ''A'' [])))"
  by (simp_all add: ready_now_def chain_pass1_def pass_state_def chain_manager_def chain_store_def
      field_rules example_defs)

lemma chain_manager_pass2:
  "ready_now (notify_orchestrator (generate_progress_report chain_pass1) chain_pass1) = [1]"
  "task_queue chain_pass2 = []"
  "active_tasks chain_pass2 = []"
  "completed_tasks chain_pass2 = [0, 1]"
  "status (store chain_pass2 0) = COMPLETED"
  "status (store chain_pass2 (Suc 0)) = COMPLETED"
  by (simp_all add: ready_now_def chain_pass2_def pass_state_def chain_manager_pass1 chain_store_def
      field_rules example_defs)

lemma chain_manager_second_ready:
  "is_ready (notify_orchestrator (generate_progress_report chain_pass1) chain_pass1) (Suc 0)"
  by (simp add: field_rules chain_manager_pass1 chain_store_def example_defs)

lemma chain_manager_first_pass:
  "loop_prefix (Suc 0) quiet_agent chain_manager [] =
     Inr ([generate_progress_report chain_pass1],
          notify_orchestrator (generate_progress_report chain_pass1) chain_pass1)"
proof -
  have c0: "loop_condition chain_manager"
    by (simp add: loop_condition_def chain_manager_def field_rules)
  have i0: "loop_iteration quiet_agent chain_manager =
      Inr (Some (generate_progress_report chain_pass1),
           notify_orchestrator (generate_progress_report chain_pass1) chain_pass1)"
    by (simp add: loop_iteration_pass chain_manager_pass1 chain_pass1_def)
  show ?thesis
    by (simp add: c0 i0 report_list_def)
qed

lemma chain_manager_run:
  "loop_prefix (Suc (Suc 0)) quiet_agent chain_manager [] =
     Inr ([generate_progress_report chain_pass1, generate_progress_report chain_pass2],
          notify_orchestrator (generate_progress_report chain_pass2) chain_pass2)"
proof -
  have c0: "loop_condition chain_manager"
    by (simp add: loop_condition_def chain_manager_def field_rules)
  have i0: "loop_iteration quiet_agent chain_manager =
      Inr (Some (generate_progress_report chain_pass1),
           notify_orchestrator (generate_progress_report chain_pass1) chain_pass1)"
    by (simp add: loop_iteration_pass chain_manager_pass1 chain_pass1_def)
  have c1: "loop_condition (notify_orchestrator (generate_progress_report chain_pass1) chain_pass1)"
    by (simp add: loop_condition_def field_rules chain_manager_pass1)
  have i1: "loop_iteration quiet_agent
        (notify_orchestrator (generate_progress_report chain_pass1) chain_pass1) =
      Inr (Some (generate_progress_report chain_pass2),
           notify_orchestrator (generate_progress_report chain_pass2) chain_pass2)"
    by (simp add: loop_iteration_pass chain_manager_pass2 chain_pass2_def)
  show ?thesis
    by (simp add: c0 i0 c1 i1 report_list_def)
qed

lemma brittle_manager_pass1:
  "ready_now brittle_manager = [0]"
  "task_queue brittle_pass1 = [1]"
  "active_tasks brittle_pass1 = []"
  "completed_tasks brittle_pass1 = [0]"
  "store brittle_pass1 =
     brittle_store(0 := after_error ''boom'' (in_progress ((plain_task ''A'' [])\<lparr> max_retry_attempts := 1 \<rparr>)))"
  by (simp_all add: ready_now_def brittle_pass1_def pass_state_def brittle_manager_def
      brittle_store_def field_rules example_defs)

text \<open>
  A dependency on a task that failed counts as satisfied. Task A fails for good in the
  first pass and is moved to the history; the report of that pass counts no completed
  task and one failed task; in the second pass the selector returns B, whose only
  dependency is A, and B is set in progress.
\<close>

lemma failed_dependency_run:
  "loop_prefix (Suc 0) failing_agent brittle_manager [] =
     Inr ([generate_progress_report brittle_pass1],
          notify_orchestrator (generate_progress_report brittle_pass1) brittle_pass1)"
  "ExecutionReport.completed_tasks (generate_progress_report brittle_pass1) = 0"
  "failed_tasks (generate_progress_report brittle_pass1) = 1"
  "status (store (notify_orchestrator (generate_progress_report brittle_pass1) brittle_pass1) 0)
     = FAILED"
  "dependencies (store (notify_orchestrator (generate_progress_report brittle_pass1) brittle_pass1)
     (Suc 0)) = [''A'']"
  "completed_task_ids (notify_orchestrator (generate_progress_report brittle_pass1) brittle_pass1)
     = {''A''}"
  "find_ready_tasks (notify_orchestrator (generate_progress_report brittle_pass1) brittle_pass1) =
     Inr ([Suc 0],
          (notify_orchestrator (generate_progress_report brittle_pass1) brittle_pass1)
            \<lparr> task_queue := [] \<rparr>)"
  "status (store (mark_in_progress (Suc 0)
     ((notify_orchestrator (generate_progress_report brittle_pass1) brittle_pass1)
        \<lparr> task_queue := [] \<rparr>)) (Suc 0)) = IN_PROGRESS"
proof -
  let ?s = "notify_orchestrator (generate_progress_report brittle_pass1) brittle_pass1"
  have c0: "loop_condition brittle_manager"
    by (simp add: loop_condition_def brittle_manager_def field_rules)
  have i0: "loop_iteration failing_agent brittle_manager =
      Inr (Some (generate_progress_report brittle_pass1), ?s)"
    by (simp add: loop_iteration_pass brittle_manager_pass1 brittle_pass1_def)
  show "loop_prefix (Suc 0) failing_agent brittle_manager [] =
     Inr ([generate_progress_report brittle_pass1], ?s)"
    by (simp add: c0 i0 report_list_def)
  show "ExecutionReport.completed_tasks (generate_progress_report brittle_pass1) = 0"
    by (simp add: generate_progress_report_def brittle_manager_pass1 example_defs)
  show "failed_tasks (generate_progress_report brittle_pass1) = 1"
    by (simp add: generate_progress_report_def brittle_manager_pass1 example_defs)
  show "status (store ?s 0) = FAILED"
    by (simp add: field_rules brittle_manager_pass1 example_defs)
  show "dependencies (store ?s (Suc 0)) = [''A'']"
    by (simp add: field_rules brittle_manager_pass1 brittle_store_def example_defs)
  show "completed_task_ids ?s = {''A''}"
    by (simp add: field_rules brittle_manager_pass1 example_defs)
  have r: "is_ready ?s (Suc 0)"
    by (simp add: field_rules brittle_manager_pass1 brittle_store_def example_defs)
  show "find_ready_tasks ?s = Inr ([Suc 0], ?s\<lparr> task_queue := [] \<rparr>)"
    using r by (simp add: find_ready_tasks_eq field_rules brittle_manager_pass1)
  show "status (store (mark_in_progress (Suc 0) (?s\<lparr> task_queue := [] \<rparr>)) (Suc 0)) = IN_PROGRESS"
    by (simp add: mark_in_progress_fields)
qed

lemma chain_manager_reports:
  "settled (generate_progress_report chain_pass1) = 1"
  "settled (generate_progress_report chain_pass2) = 2"
  "blocked_tasks (generate_progress_report chain_pass1) = 0"
  "blocked_tasks (generate_progress_report chain_pass2) = 0"
  by (simp_all add: settled_def generate_progress_report_def chain_manager_pass1 chain_manager_pass2
      after_success_keeps)

lemma chain_manager_terminates:
  "autonomous_loop quiet_agent chain_manager [] =
     Some (Inr ([generate_progress_report chain_pass1, generate_progress_report chain_pass2],
                notify_orchestrator (generate_progress_report chain_pass2) chain_pass2))"
proof (rule prefix_autonomous_loop [OF chain_manager_run])
  show "\<not> loop_condition (notify_orchestrator (generate_progress_report chain_pass2) chain_pass2)"
    by (simp add: loop_condition_def field_rules chain_manager_pass2)
qed

lemma retry_start_fields:
  "task_queue retry_start = [0]"
  "active_tasks retry_start = []"
  "completed_tasks retry_start = []"
  "orchestrator_callbacks retry_start = []"
  "store retry_start = single_store ((plain_task ''D'' [])\<lparr> max_retry_attempts := 2 \<rparr>)"
  "attempts ''D'' (execution_log retry_start) = 0"
  by (simp_all add: retry_start_def retry_manager_def field_rules attempts_simps fresh_manager_def
      init_manager_def single_store_def plain_task_def)

lemma retry_pass1_fields:
  "ready_now retry_start = [0]"
  "task_queue retry_pass1 = [0]"
  "active_tasks retry_pass1 = [(''D'', 0)]"
  "completed_tasks retry_pass1 = []"
  "orchestrator_callbacks retry_pass1 = []"
  "status (store retry_pass1 0) = PENDING"
  "retry_count (store retry_pass1 0) = 1"
  "max_retry_attempts (store retry_pass1 0) = 2"
  "dependencies (store retry_pass1 0) = []"
  "task_id (store retry_pass1 0) = ''D''"
  "attempts ''D'' (execution_log retry_pass1) = 1"
  by (simp_all add: ready_now_def retry_pass1_def pass_state_def retry_start_fields field_rules
      execute_task_log attempts_simps example_defs)

lemma retry_pass2_fields:
  "ready_now retry_pass1 = [0]"
  "task_queue retry_pass2 = []"
  "active_tasks retry_pass2 = []"
  "completed_tasks retry_pass2 = [0]"
  "orchestrator_callbacks retry_pass2 = []"
  "status (store retry_pass2 0) = FAILED"
  "retry_count (store retry_pass2 0) = 2"
  "max_retry_attempts (store retry_pass2 0) = 2"
  "attempts ''D'' (execution_log retry_pass2) = 2"
  by (simp_all add: ready_now_def retry_pass2_def pass_state_def retry_pass1_fields field_rules
      execute_task_log attempts_simps is_ready_def completed_task_ids_def deps_satisfied_def
      finished_def failing_agent_def in_progress_keeps after_error_keeps retry_allowed_def)

lemma retry_manager_run:
  "start_autonomous_execution failing_agent retry_manager =
     Some (Inr (generate_final_report retry_pass2,
                [generate_progress_report retry_pass1, generate_progress_report retry_pass2],
                retry_pass2))"
proof -
  have c0: "loop_condition retry_start"
    by (simp add: loop_condition_def retry_start_fields)
  have i0: "loop_iteration failing_agent retry_start =
      Inr (Some (generate_progress_report retry_pass1), retry_pass1)"
    by (simp add: loop_iteration_pass retry_pass1_fields notify_orchestrator_no_callbacks
        flip: retry_pass1_def)
  have c1: "loop_condition retry_pass1"
    by (simp add: loop_condition_def retry_pass1_fields)
  have i1: "loop_iteration failing_agent retry_pass1 =
      Inr (Some (generate_progress_report retry_pass2), retry_pass2)"
    by (simp add: loop_iteration_pass retry_pass2_fields notify_orchestrator_no_callbacks
        flip: retry_pass2_def)
  have c2: "\<not> loop_condition retry_pass2"
    by (simp add: loop_condition_def retry_pass2_fields)
  have "autonomous_loop failing_agent retry_start [] =
      Some (Inr ([generate_progress_report retry_pass1, generate_progress_report retry_pass2],
                 retry_pass2))"
    using autonomous_loop_step [OF c0 i0, of "[]"]
      autonomous_loop_step [OF c1 i1, of "[generate_progress_report retry_pass1]"]
      autonomous_loop_exit [OF c2, of failing_agent]
    by (simp add: report_list_def)
  then show ?thesis
    by (simp add: start_autonomous_execution_def retry_start_def Let_def
        notify_orchestrator_no_callbacks retry_pass2_fields)
qed

section \<open>The claims\<close>

subsection \<open>C1: the number of attempts of a task that always fails\<close>

text \<open>
  C1 fails on the code. A task with \<open>max_retry_attempts = 2\<close> whose agent call raises
  every time is started twice, not three times, before it ends as failed:
  \<open>_handle_task_error\<close> increments \<open>retry_count\<close> first and retries only while the new count
  is below \<open>max_retry_attempts\<close>. In general such a task is started \<open>max_retry_attempts\<close>
  times, and once when that is below one (\<open>failing_task_retry_law\<close>).
\<close>

theorem failing_task_attempts:
  "case start_autonomous_execution failing_agent retry_manager of
     Some (Inr (final_report, reports, s)) \<Rightarrow>
       max_retry_attempts (store s 0) = 2 \<and> status (store s 0) = FAILED
       \<and> attempts ''D'' (execution_log s) = 2 \<and> retry_count (store s 0) = 2
       \<and> failed_tasks final_report = 1
   | _ \<Rightarrow> False"
  by (simp add: retry_manager_run retry_pass2_fields generate_final_report_def
      generate_progress_report_def)

subsection \<open>C2: when the loop ends\<close>

text \<open>
  C2: the loop returns exactly when, after some number of passes, the pending queue and
  the active dictionary are both empty, and then it returns that state; when both are
  empty at the start it returns at once. If a task of the queue has a dependency
  identifier that is in the set of completed identifiers after no number of passes, the
  loop never returns.
\<close>

theorem loop_exit_and_blocking:
  "(autonomous_loop call_agent s reports \<noteq> None \<longleftrightarrow>
      (\<exists>n reports' s'. loop_prefix n call_agent s reports = Inr (reports', s')
          \<and> task_queue s' = [] \<and> active_tasks s' = []))
   \<and> (\<forall>res. autonomous_loop call_agent s reports = Some res \<longrightarrow>
         (\<exists>reports' s'. res = Inr (reports', s') \<and> task_queue s' = [] \<and> active_tasks s' = []))
   \<and> (task_queue s = [] \<and> active_tasks s = [] \<longrightarrow>
         autonomous_loop call_agent s reports = Some (Inr (reports, s)))
   \<and> (\<forall>t d. t \<in> set (task_queue s) \<and> d \<in> set (dependencies (store s t))
           \<and> (\<forall>n reports' s'. loop_prefix n call_agent s reports = Inr (reports', s')
                  \<longrightarrow> d \<notin> completed_task_ids s')
         \<longrightarrow> autonomous_loop call_agent s reports = None)"
proof (intro conjI allI impI)
  show "autonomous_loop call_agent s reports \<noteq> None \<longleftrightarrow>
      (\<exists>n reports' s'. loop_prefix n call_agent s reports = Inr (reports', s')
          \<and> task_queue s' = [] \<and> active_tasks s' = [])"
  proof
    assume "autonomous_loop call_agent s reports \<noteq> None"
    then obtain res where "autonomous_loop call_agent s reports = Some res" by auto
    from autonomous_loop_prefix [OF this]
    show "\<exists>n reports' s'. loop_prefix n call_agent s reports = Inr (reports', s')
          \<and> task_queue s' = [] \<and> active_tasks s' = []"
      by (auto simp: loop_condition_def)
  next
    assume "\<exists>n reports' s'. loop_prefix n call_agent s reports = Inr (reports', s')
          \<and> task_queue s' = [] \<and> active_tasks s' = []"
    then obtain n reports' s' where "loop_prefix n call_agent s reports = Inr (reports', s')"
      "\<not> loop_condition s'"
      by (auto simp: loop_condition_def)
    from prefix_autonomous_loop [OF this]
    show "autonomous_loop call_agent s reports \<noteq> None" by simp
  qed
next
  fix res
  assume "autonomous_loop call_agent s reports = Some res"
  from autonomous_loop_prefix [OF this]
  show "\<exists>reports' s'. res = Inr (reports', s') \<and> task_queue s' = [] \<and> active_tasks s' = []"
    by (auto simp: loop_condition_def)
next
  assume "task_queue s = [] \<and> active_tasks s = []"
  then show "autonomous_loop call_agent s reports = Some (Inr (reports, s))"
    by (simp add: autonomous_loop_exit loop_condition_def)
next
  fix t d
  assume a: "t \<in> set (task_queue s) \<and> d \<in> set (dependencies (store s t))
     \<and> (\<forall>n reports' s'. loop_prefix n call_agent s reports = Inr (reports', s')
            \<longrightarrow> d \<notin> completed_task_ids s')"
  show "autonomous_loop call_agent s reports = None"
  proof (rule ccontr)
    assume "autonomous_loop call_agent s reports \<noteq> None"
    then obtain res where "autonomous_loop call_agent s reports = Some res" by auto
    from autonomous_loop_prefix [OF this] obtain n reports' s' where
      run: "loop_prefix n call_agent s reports = Inr (reports', s')" and ex: "\<not> loop_condition s'"
      by blast
    have "t \<in> set (task_queue s')"
      using a by (intro loop_prefix_blocked_task [OF run, of t d]) auto
    with ex show False
      by (auto simp: loop_condition_def)
  qed
qed

theorem loop_exit_and_blocking_witness:
  "autonomous_loop quiet_agent chain_manager [] =
     Some (Inr ([generate_progress_report chain_pass1, generate_progress_report chain_pass2],
                notify_orchestrator (generate_progress_report chain_pass2) chain_pass2))
   \<and> task_queue (notify_orchestrator (generate_progress_report chain_pass2) chain_pass2) = []
   \<and> active_tasks (notify_orchestrator (generate_progress_report chain_pass2) chain_pass2) = []
   \<and> 0 \<in> set (task_queue stuck_manager)
   \<and> ''ghost'' \<in> set (dependencies (store stuck_manager 0))
   \<and> autonomous_loop quiet_agent stuck_manager [] = None
   \<and> start_autonomous_execution quiet_agent stuck_manager = None"
proof -
  have never: "\<forall>n reports' s'. loop_prefix n quiet_agent stuck_manager [] = Inr (reports', s')
      \<longrightarrow> ''ghost'' \<notin> completed_task_ids s'"
    using dangling_never_completed [OF stuck_manager_facts(3)] by blast
  from loop_exit_and_blocking [of quiet_agent stuck_manager "[]"] stuck_manager_facts(1,2) never
  have none: "autonomous_loop quiet_agent stuck_manager [] = None"
    by blast
  let ?s0 = "log_event (execution_started (length (task_queue stuck_manager))
      (session_id stuck_manager)) stuck_manager"
  have "0 \<in> set (task_queue ?s0)" "''ghost'' \<in> set (dependencies (store ?s0 0))"
    "''ghost'' \<notin> (\<lambda>b. task_id (store ?s0 b)) ` known_tasks ?s0"
    using stuck_manager_facts by (simp_all add: log_event_fields known_tasks_def)
  moreover from this(3) have "\<forall>n reports' s'. loop_prefix n quiet_agent ?s0 [] = Inr (reports', s')
      \<longrightarrow> ''ghost'' \<notin> completed_task_ids s'"
    using dangling_never_completed by blast
  ultimately have "autonomous_loop quiet_agent ?s0 [] = None"
    using loop_exit_and_blocking [of quiet_agent ?s0 "[]"] by blast
  then have "start_autonomous_execution quiet_agent stuck_manager = None"
    by (simp add: start_autonomous_execution_def)
  with none chain_manager_terminates stuck_manager_facts(1,2) show ?thesis
    by (simp add: field_rules chain_manager_pass2)
qed

subsection \<open>C3: the status of a task moves along the edges of the state machine\<close>

text \<open>
  C3 as stated fails when the same task object is in the pending queue twice: the selector
  returns it twice, the first execution completes it, and the second execution sets it
  from completed to in progress, which is no edge of the state machine.
\<close>

theorem status_transitions_counterexample:
  "find_ready_tasks twice_queued = Inr ([0, 0], twice_queued\<lparr> task_queue := [] \<rparr>)
   \<and> status (store (execute_all quiet_agent [0] (twice_queued\<lparr> task_queue := [] \<rparr>)) 0) = COMPLETED
   \<and> status (store (mark_in_progress 0
          (execute_all quiet_agent [0] (twice_queued\<lparr> task_queue := [] \<rparr>))) 0) = IN_PROGRESS
   \<and> \<not> legal_edge COMPLETED IN_PROGRESS
   \<and> \<not> status_step (execute_all quiet_agent [0] (twice_queued\<lparr> task_queue := [] \<rparr>))
          (mark_in_progress 0 (execute_all quiet_agent [0] (twice_queued\<lparr> task_queue := [] \<rparr>)))
   \<and> execute_all quiet_agent [0, 0] (twice_queued\<lparr> task_queue := [] \<rparr>)
       = attempt quiet_agent 0
           (mark_in_progress 0 (execute_all quiet_agent [0] (twice_queued\<lparr> task_queue := [] \<rparr>)))"
proof -
  have r: "is_ready twice_queued 0"
    by (simp add: twice_queued_def field_rules example_defs)
  have f: "find_ready_tasks twice_queued = Inr ([0, 0], twice_queued\<lparr> task_queue := [] \<rparr>)"
  proof -
    have q: "task_queue twice_queued = [0, 0]"
      by (simp add: twice_queued_def field_rules)
    show ?thesis
      using r by (simp add: find_ready_tasks_eq q)
  qed
  have c: "status (store (execute_all quiet_agent [0] (twice_queued\<lparr> task_queue := [] \<rparr>)) 0)
      = COMPLETED"
    by (simp add: execute_all_simps execute_task_status quiet_agent_def)
  have m: "status (store (mark_in_progress 0
          (execute_all quiet_agent [0] (twice_queued\<lparr> task_queue := [] \<rparr>))) 0) = IN_PROGRESS"
    by (simp add: mark_in_progress_fields)
  have e: "\<not> legal_edge COMPLETED IN_PROGRESS"
    by (simp add: legal_edge_def)
  have "\<not> (status (store (mark_in_progress 0
          (execute_all quiet_agent [0] (twice_queued\<lparr> task_queue := [] \<rparr>))) 0)
        = status (store (execute_all quiet_agent [0] (twice_queued\<lparr> task_queue := [] \<rparr>)) 0)
      \<or> legal_edge (status (store (execute_all quiet_agent [0] (twice_queued\<lparr> task_queue := [] \<rparr>)) 0))
          (status (store (mark_in_progress 0
          (execute_all quiet_agent [0] (twice_queued\<lparr> task_queue := [] \<rparr>))) 0)))"
    by (simp only: c m e) simp
  then have s: "\<not> status_step (execute_all quiet_agent [0] (twice_queued\<lparr> task_queue := [] \<rparr>))
          (mark_in_progress 0 (execute_all quiet_agent [0] (twice_queued\<lparr> task_queue := [] \<rparr>)))"
    unfolding status_step_def by blast
  have x: "execute_all quiet_agent [0, 0] (twice_queued\<lparr> task_queue := [] \<rparr>)
       = attempt quiet_agent 0
           (mark_in_progress 0 (execute_all quiet_agent [0] (twice_queued\<lparr> task_queue := [] \<rparr>)))"
    by (simp add: execute_all_simps execute_task_def)
  from f c m e s x show ?thesis
    by (intro conjI)
qed

text \<open>
  C3, amended: take a run that starts with no task object twice in the pending queue, and
  any pass of it. The selector changes no status. When the pass comes to execute the
  \<open>i\<close>-th ready task, that task is pending and every identifier of its dependency list is
  in the set that the selector tests, which is the set of the identifiers of the tasks
  in the history \<open>completed_tasks\<close>. This is not the set of the tasks that completed: when
  the run started with only finished tasks in the history (a new manager has none),
  every dependency names a task of the history whose status is completed or failed, and
  \<open>failed_dependency_run\<close> is a run in which it is failed, so a dependency on a task that
  failed counts as satisfied. Marking the task moves it from pending to in progress, and
  the attempt moves it from in progress to completed, pending or failed; no other task
  changes its status in either step. Reconciling the active set and notifying the
  observers change no status. The queue holds no task twice after the pass either.
\<close>

theorem status_transitions:
  assumes "distinct (task_queue s0)"
    and "loop_prefix n call_agent s0 reports0 = Inr (reports, s)"
    and "find_ready_tasks s = Inr (ready, s1)"
    and "i < length ready"
  shows "store s1 = store s
     \<and> status (store (execute_all call_agent (take i ready) s1) (ready ! i)) = PENDING
     \<and> set (dependencies (store (execute_all call_agent (take i ready) s1) (ready ! i)))
          \<subseteq> completed_task_ids (execute_all call_agent (take i ready) s1)
     \<and> completed_task_ids (execute_all call_agent (take i ready) s1)
          = (\<lambda>b. task_id (store (execute_all call_agent (take i ready) s1) b))
              ` set (completed_tasks (execute_all call_agent (take i ready) s1))
     \<and> (history_finished s0 \<longrightarrow>
          (\<forall>d\<in>set (dependencies (store (execute_all call_agent (take i ready) s1) (ready ! i))).
             \<exists>b\<in>set (completed_tasks (execute_all call_agent (take i ready) s1)).
               task_id (store (execute_all call_agent (take i ready) s1) b) = d
               \<and> (status (store (execute_all call_agent (take i ready) s1) b) = COMPLETED
                  \<or> status (store (execute_all call_agent (take i ready) s1) b) = FAILED)))
     \<and> status_step (execute_all call_agent (take i ready) s1)
          (mark_in_progress (ready ! i) (execute_all call_agent (take i ready) s1))
     \<and> status (store (mark_in_progress (ready ! i) (execute_all call_agent (take i ready) s1))
          (ready ! i)) = IN_PROGRESS
     \<and> status_step (mark_in_progress (ready ! i) (execute_all call_agent (take i ready) s1))
          (attempt call_agent (ready ! i)
             (mark_in_progress (ready ! i) (execute_all call_agent (take i ready) s1)))
     \<and> (status (store (attempt call_agent (ready ! i)
            (mark_in_progress (ready ! i) (execute_all call_agent (take i ready) s1)))
          (ready ! i)) = COMPLETED
        \<or> status (store (attempt call_agent (ready ! i)
            (mark_in_progress (ready ! i) (execute_all call_agent (take i ready) s1)))
          (ready ! i)) = PENDING
        \<or> status (store (attempt call_agent (ready ! i)
            (mark_in_progress (ready ! i) (execute_all call_agent (take i ready) s1)))
          (ready ! i)) = FAILED)
     \<and> attempt call_agent (ready ! i)
          (mark_in_progress (ready ! i) (execute_all call_agent (take i ready) s1))
        = execute_all call_agent (take (Suc i) ready) s1
     \<and> store (check_task_completion u) = store u
     \<and> store (notify_orchestrator report u) = store u
     \<and> (\<forall>r s'. loop_iteration call_agent s = Inr (r, s') \<longrightarrow>
           store s' = store (execute_all call_agent ready s1) \<and> distinct (task_queue s'))"
proof -
  let ?a = "ready ! i"
  let ?pre = "execute_all call_agent (take i ready) s1"
  let ?mid = "mark_in_progress ?a ?pre"
  have ds: "distinct (task_queue s)"
    using assms(2,1) by (rule loop_prefix_distinct_queue)
  from assms(3) have ready: "ready = ready_now s"
    and s1: "s1 = s\<lparr> task_queue := filter (\<lambda>a. \<not> is_ready s a) (task_queue s) \<rparr>"
    by (simp_all add: find_ready_tasks_eq ready_now_def)
  from ds ready have dr: "distinct ready"
    by (simp add: ready_now_def)
  from assms(4) ready have rdy: "is_ready s ?a"
    by (auto intro: ready_now_is_ready)
  have "?a \<notin> set (take i ready)"
    using dr assms(4) by (rule nth_not_in_take)
  then have same: "store ?pre ?a = store s ?a"
    by (simp add: execute_all_other s1)
  have "completed_task_ids ?pre = completed_task_ids s1"
    by (rule completed_task_ids_execute_all)
  also have "\<dots> = completed_task_ids s"
    by (simp add: s1 completed_task_ids_def)
  finally have ids: "completed_task_ids ?pre = completed_task_ids s" .
  have hist: "completed_tasks ?pre = completed_tasks s"
    by (simp add: execute_all_frame s1)
  have p: "status (store ?pre ?a) = PENDING"
    using rdy same by (simp add: is_ready_def)
  have d: "set (dependencies (store ?pre ?a)) \<subseteq> completed_task_ids ?pre"
    using rdy same ids by (simp add: is_ready_def deps_satisfied_subset)
  have c: "completed_task_ids ?pre = (\<lambda>b. task_id (store ?pre b)) ` set (completed_tasks ?pre)"
    by (simp add: completed_task_ids_def)
  have h: "\<exists>b\<in>set (completed_tasks ?pre). task_id (store ?pre b) = x
        \<and> (status (store ?pre b) = COMPLETED \<or> status (store ?pre b) = FAILED)"
    if start: "history_finished s0" and x: "x \<in> set (dependencies (store ?pre ?a))" for x
  proof -
    have fin: "history_finished s"
      using assms(2) start by (rule loop_prefix_history_finished)
    from x d c obtain b where b: "b \<in> set (completed_tasks ?pre)" "task_id (store ?pre b) = x"
      by auto
    from b(1) hist fin have fb: "finished s b"
      by (simp add: history_finished_def list_all_iff)
    then have "\<not> is_ready s b"
      by (auto simp: finished_def is_ready_def)
    then have "b \<notin> set ready"
      by (simp add: ready ready_now_def)
    then have "b \<notin> set (take i ready)"
      by (auto dest: in_set_takeD)
    then have "store ?pre b = store s b"
      by (simp add: execute_all_other s1)
    with fb have "status (store ?pre b) = COMPLETED \<or> status (store ?pre b) = FAILED"
      by (simp add: finished_def)
    with b show ?thesis
      by blast
  qed
  have m: "status (store ?mid ?a) = IN_PROGRESS"
    by (simp add: mark_in_progress_fields)
  have e: "attempt call_agent ?a ?mid = execute_all call_agent (take (Suc i) ready) s1"
    using assms(4) by (simp add: take_Suc_conv_app_nth execute_all_simps execute_task_def)
  have l: "store s' = store (execute_all call_agent ready s1) \<and> distinct (task_queue s')"
    if "loop_iteration call_agent s = Inr (r, s')" for r s'
    using loop_iteration_fields(1,2) [OF that] pass_state_distinct_queue [OF ds, of call_agent]
    by (simp add: pass_state_def ready s1 check_task_completion_fields)
  have o: "status (store (attempt call_agent ?a ?mid) ?a) = COMPLETED
      \<or> status (store (attempt call_agent ?a ?mid) ?a) = PENDING
      \<or> status (store (attempt call_agent ?a ?mid) ?a) = FAILED"
    using execute_task_status_cases [of call_agent ?a ?pre] by (simp add: execute_task_def)
  have f: "store s1 = store s" "store (check_task_completion u) = store u"
    "store (notify_orchestrator report u) = store u"
    by (simp_all add: s1 check_task_completion_fields notify_orchestrator_fields)
  from f p d c h status_step_mark [OF p] m status_step_attempt [OF m, of call_agent] o e l
  show ?thesis
    by blast
qed

theorem status_transitions_witness:
  "distinct (task_queue chain_manager)
   \<and> loop_prefix (Suc 0) quiet_agent chain_manager [] =
       Inr ([generate_progress_report chain_pass1],
            notify_orchestrator (generate_progress_report chain_pass1) chain_pass1)
   \<and> find_ready_tasks (notify_orchestrator (generate_progress_report chain_pass1) chain_pass1) =
       Inr ([Suc 0],
            (notify_orchestrator (generate_progress_report chain_pass1) chain_pass1)
              \<lparr> task_queue := [] \<rparr>)
   \<and> status (store ((notify_orchestrator (generate_progress_report chain_pass1) chain_pass1)
              \<lparr> task_queue := [] \<rparr>) (Suc 0)) = PENDING
   \<and> set (dependencies (store ((notify_orchestrator (generate_progress_report chain_pass1) chain_pass1)
              \<lparr> task_queue := [] \<rparr>) (Suc 0))) = {''A''}
   \<and> completed_task_ids ((notify_orchestrator (generate_progress_report chain_pass1) chain_pass1)
              \<lparr> task_queue := [] \<rparr>) = {''A''}
   \<and> status (store (execute_task quiet_agent (Suc 0)
          ((notify_orchestrator (generate_progress_report chain_pass1) chain_pass1)
              \<lparr> task_queue := [] \<rparr>)) (Suc 0)) = COMPLETED
   \<and> distinct (task_queue brittle_manager) \<and> history_finished brittle_manager
   \<and> loop_prefix (Suc 0) failing_agent brittle_manager [] =
       Inr ([generate_progress_report brittle_pass1],
            notify_orchestrator (generate_progress_report brittle_pass1) brittle_pass1)
   \<and> find_ready_tasks (notify_orchestrator (generate_progress_report brittle_pass1) brittle_pass1) =
       Inr ([Suc 0],
            (notify_orchestrator (generate_progress_report brittle_pass1) brittle_pass1)
              \<lparr> task_queue := [] \<rparr>)
   \<and> dependencies (store ((notify_orchestrator (generate_progress_report brittle_pass1) brittle_pass1)
              \<lparr> task_queue := [] \<rparr>) (Suc 0)) = [''A'']
   \<and> completed_tasks ((notify_orchestrator (generate_progress_report brittle_pass1) brittle_pass1)
              \<lparr> task_queue := [] \<rparr>) = [0]
   \<and> task_id (store ((notify_orchestrator (generate_progress_report brittle_pass1) brittle_pass1)
              \<lparr> task_queue := [] \<rparr>) 0) = ''A''
   \<and> status (store ((notify_orchestrator (generate_progress_report brittle_pass1) brittle_pass1)
              \<lparr> task_queue := [] \<rparr>) 0) = FAILED
   \<and> (\<exists>b\<in>set (completed_tasks
            ((notify_orchestrator (generate_progress_report brittle_pass1) brittle_pass1)
              \<lparr> task_queue := [] \<rparr>)).
        task_id (store ((notify_orchestrator (generate_progress_report brittle_pass1) brittle_pass1)
              \<lparr> task_queue := [] \<rparr>) b) = ''A''
        \<and> (status (store ((notify_orchestrator (generate_progress_report brittle_pass1) brittle_pass1)
              \<lparr> task_queue := [] \<rparr>) b) = COMPLETED
           \<or> status (store ((notify_orchestrator (generate_progress_report brittle_pass1) brittle_pass1)
              \<lparr> task_queue := [] \<rparr>) b) = FAILED))
   \<and> status (store (mark_in_progress (Suc 0)
          ((notify_orchestrator (generate_progress_report brittle_pass1) brittle_pass1)
              \<lparr> task_queue := [] \<rparr>)) (Suc 0)) = IN_PROGRESS"
proof -
  let ?s = "notify_orchestrator (generate_progress_report chain_pass1) chain_pass1"
  let ?t = "notify_orchestrator (generate_progress_report brittle_pass1) brittle_pass1"
  let ?t1 = "?t\<lparr> task_queue := [] \<rparr>"
  let ?e = "execute_all failing_agent (take 0 [Suc 0]) ?t1"
  have h1: "distinct (task_queue chain_manager)"
    by (simp add: chain_manager_def field_rules)
  have h3: "find_ready_tasks ?s = Inr ([Suc 0], ?s\<lparr> task_queue := [] \<rparr>)"
    by (simp add: find_ready_tasks_eq field_rules chain_manager_pass1 chain_manager_second_ready)
  have h4: "0 < length [Suc 0]" by simp
  have ids: "completed_task_ids (?s\<lparr> task_queue := [] \<rparr>) = {''A''}"
    by (simp add: field_rules chain_manager_pass1 example_defs)
  have deps: "set (dependencies (store (?s\<lparr> task_queue := [] \<rparr>) (Suc 0))) = {''A''}"
    by (simp add: field_rules chain_manager_pass1 chain_store_def example_defs)
  have fin: "status (store (execute_task quiet_agent (Suc 0) (?s\<lparr> task_queue := [] \<rparr>)) (Suc 0))
      = COMPLETED"
    by (simp add: execute_task_status quiet_agent_def)
  have "status (store (execute_all quiet_agent (take 0 [Suc 0]) (?s\<lparr> task_queue := [] \<rparr>))
          ([Suc 0] ! 0)) = PENDING"
    by (rule status_transitions [OF h1 chain_manager_first_pass h3 h4, THEN conjunct2,
          THEN conjunct1])
  then have pend: "status (store (?s\<lparr> task_queue := [] \<rparr>) (Suc 0)) = PENDING"
    by (simp only: take_0 execute_all_simps nth_Cons_0)
  have b1: "distinct (task_queue brittle_manager)"
    by (simp add: brittle_manager_def field_rules)
  have b2: "history_finished brittle_manager"
    by (simp add: history_finished_def brittle_manager_def field_rules)
  have b3: "dependencies (store (?t\<lparr> task_queue := [] \<rparr>) (Suc 0)) = [''A'']"
    using failed_dependency_run(5) by simp
  have b4: "completed_tasks (?t\<lparr> task_queue := [] \<rparr>) = [0]"
    by (simp add: field_rules brittle_manager_pass1)
  have b5: "task_id (store (?t\<lparr> task_queue := [] \<rparr>) 0) = ''A''"
    by (simp add: field_rules brittle_manager_pass1 example_defs)
  have b6: "status (store (?t\<lparr> task_queue := [] \<rparr>) 0) = FAILED"
    using failed_dependency_run(4) by simp
  have "history_finished brittle_manager \<longrightarrow>
      (\<forall>d\<in>set (dependencies (store ?e ([Suc 0] ! 0))).
         \<exists>b\<in>set (completed_tasks ?e). task_id (store ?e b) = d
           \<and> (status (store ?e b) = COMPLETED \<or> status (store ?e b) = FAILED))"
    by (rule status_transitions [OF b1 failed_dependency_run(1) failed_dependency_run(7) h4,
          THEN conjunct2, THEN conjunct2, THEN conjunct2, THEN conjunct2, THEN conjunct1])
  from this b2 have "\<forall>d\<in>set (dependencies (store ?e ([Suc 0] ! 0))).
         \<exists>b\<in>set (completed_tasks ?e). task_id (store ?e b) = d
           \<and> (status (store ?e b) = COMPLETED \<or> status (store ?e b) = FAILED)"
    by (rule mp)
  then have "\<forall>d\<in>set (dependencies (store ?t1 (Suc 0))).
         \<exists>b\<in>set (completed_tasks ?t1). task_id (store ?t1 b) = d
           \<and> (status (store ?t1 b) = COMPLETED \<or> status (store ?t1 b) = FAILED)"
    by (simp only: take_0 execute_all_simps nth_Cons_0)
  then have b7: "\<exists>b\<in>set (completed_tasks ?t1). task_id (store ?t1 b) = ''A''
      \<and> (status (store ?t1 b) = COMPLETED \<or> status (store ?t1 b) = FAILED)"
    by (simp only: b3) simp
  from h1 chain_manager_first_pass h3 pend deps ids fin b1 b2 failed_dependency_run(1)
    failed_dependency_run(7) b3 b4 b5 b6 b7 failed_dependency_run(8)
  show ?thesis
    by (intro conjI)
qed

subsection \<open>C4: calling the readiness selector twice\<close>

text \<open>
  C4 as stated fails: the selector removes what it returns, so with one ready task in the
  queue the first call returns that task and the second call returns nothing.
\<close>

theorem find_ready_tasks_twice_counterexample:
  "find_ready_tasks one_pending = Inr ([0], one_pending\<lparr> task_queue := [] \<rparr>)
   \<and> find_ready_tasks (one_pending\<lparr> task_queue := [] \<rparr>) = Inr ([], one_pending\<lparr> task_queue := [] \<rparr>)"
  by (simp add: find_ready_tasks_eq is_ready_queue_update one_pending_def fresh_manager_fields
      is_ready_def single_store_def plain_task_def deps_satisfied_def)

text \<open>
  C4, amended: for every pending queue and completed set the selector returns normally;
  a second call right after the first returns the empty list and leaves the manager as
  the first call left it. The two results are therefore equal only when the first is
  empty.
\<close>

theorem find_ready_tasks_second_call:
  "\<exists>ready s1. find_ready_tasks s = Inr (ready, s1)
      \<and> ready = filter (is_ready s) (task_queue s)
      \<and> find_ready_tasks s1 = Inr ([], s1)"
proof -
  let ?s1 = "s\<lparr> task_queue := filter (\<lambda>a. \<not> is_ready s a) (task_queue s) \<rparr>"
  have "filter (is_ready ?s1) (task_queue ?s1) = []"
    by (simp add: is_ready_queue_update)
  moreover have "filter (\<lambda>a. \<not> is_ready ?s1 a) (task_queue ?s1) = task_queue ?s1"
    by (simp add: is_ready_queue_update)
  ultimately have "find_ready_tasks ?s1 = Inr ([], ?s1)"
    by (simp only: find_ready_tasks_eq [of ?s1]) simp
  then show ?thesis
    by (simp add: find_ready_tasks_eq)
qed

theorem find_ready_tasks_second_call_witness:
  "\<exists>ready s1. find_ready_tasks one_pending = Inr (ready, s1) \<and> ready = [0]
      \<and> find_ready_tasks s1 = Inr ([], s1)"
  using find_ready_tasks_second_call [of one_pending]
  by (simp add: one_pending_def fresh_manager_fields is_ready_def single_store_def
      plain_task_def deps_satisfied_def)

subsection \<open>C5: the phase label\<close>

text \<open>
  C5 fails on the code. With task A finished and task B (which depends on A) still pending,
  one of two known tasks is complete, which is not below the 50% threshold, yet the
  first progress report is labelled "Core Implementation": the code multiplies only the
  completed count by 0.5, not the total.
\<close>

theorem phase_label_at_half:
  "case loop_iteration quiet_agent chain_manager of
     Inr (Some r, s) \<Rightarrow>
       current_phase r = ''Core Implementation''
       \<and> ExecutionReport.completed_tasks r = 1 \<and> total_tasks r = 2
       \<and> \<not> (real (ExecutionReport.completed_tasks r) < 0.5 * real (total_tasks r))
   | _ \<Rightarrow> False"
  by (simp add: loop_iteration_eq chain_manager_def chain_store_def field_rules example_defs Let_def
      generate_progress_report_def determine_current_phase_def)

subsection \<open>C6: the phase label of every report\<close>

text \<open>
  C6 as stated fails: the final report that \<open>start_autonomous_execution\<close> returns has the
  phase "Completed", which is none of the four labels.
\<close>

theorem final_report_phase_counterexample:
  "case start_autonomous_execution quiet_agent one_pending of
     Some (Inr (final_report, reports, s)) \<Rightarrow>
       current_phase final_report = ''Completed'' \<and> current_phase final_report \<notin> phase_labels
   | _ \<Rightarrow> False"
proof -
  obtain s1 r where "start_autonomous_execution quiet_agent one_pending =
       Some (Inr (generate_final_report s1, [r], notify_orchestrator (generate_final_report s1) s1))"
    using one_pending_run by blast
  then show ?thesis
    by (simp add: generate_final_report_def phase_labels_def)
qed

text \<open>
  C6, amended: every progress report has one of the four labels as its phase, and so has
  every report generated inside the loop of \<open>start_autonomous_execution\<close>; the final
  report it returns has the phase "Completed".
\<close>

theorem report_phase_labels:
  "current_phase (generate_progress_report s) \<in> phase_labels
   \<and> (\<forall>final_report reports s'.
         start_autonomous_execution ag s = Some (Inr (final_report, reports, s')) \<longrightarrow>
           current_phase final_report = ''Completed''
           \<and> (\<forall>r\<in>set reports. current_phase r \<in> phase_labels))"
proof (intro conjI allI impI)
  show "current_phase (generate_progress_report s) \<in> phase_labels"
    by (simp add: generate_progress_report_def determine_current_phase_labels)
next
  fix final_report reports s'
  assume run: "start_autonomous_execution ag s = Some (Inr (final_report, reports, s'))"
  then obtain s1 where
    lp: "autonomous_loop ag (log_event (execution_started (length (task_queue s)) (session_id s)) s) []
            = Some (Inr (reports, s1))"
    and fin: "final_report = generate_final_report s1"
    using start_autonomous_execution_Some by blast
  from fin show "current_phase final_report = ''Completed''"
    by (simp add: generate_final_report_def)
  from autonomous_loop_prefix [OF lp] obtain n where
    "loop_prefix n ag (log_event (execution_started (length (task_queue s)) (session_id s)) s) []
       = Inr (reports, s1)"
    by auto
  from loop_prefix_reports [OF this]
  have "\<forall>r\<in>set reports. \<exists>s3 :: 'a AutonomousManager. r = generate_progress_report s3"
    by simp
  then show "\<forall>r\<in>set reports. current_phase r \<in> phase_labels"
    by (auto simp add: generate_progress_report_def determine_current_phase_labels)
qed

theorem report_phase_labels_witness:
  "current_phase (generate_progress_report one_pending) \<in> phase_labels
   \<and> (\<exists>final_report r s'.
         start_autonomous_execution quiet_agent one_pending = Some (Inr (final_report, [r], s'))
         \<and> current_phase final_report = ''Completed''
         \<and> current_phase r \<in> phase_labels)"
proof -
  obtain s1 r where run: "start_autonomous_execution quiet_agent one_pending =
       Some (Inr (generate_final_report s1, [r], notify_orchestrator (generate_final_report s1) s1))"
    using one_pending_run by blast
  from report_phase_labels [of one_pending quiet_agent] run show ?thesis
    by simp
qed

subsection \<open>C7: notifying the observers\<close>

text \<open>
  C7: \<open>_notify_orchestrator\<close> calls every registered callback with the report, in the order
  of registration, whether or not an earlier one raised: the world afterwards is the
  world after all of their effects. Each exception is caught and leaves one
  \<open>orchestrator_notification_failed\<close> entry in the execution log, nothing else of the
  manager changes, and a pass of the loop, of which the notification is the last step,
  returns normally, so the loop goes on.
\<close>

theorem notify_orchestrator_isolates_observers:
  "env (notify_orchestrator report s)
     = foldl (\<lambda>w cb. snd (cb report w)) (env s) (orchestrator_callbacks s)
   \<and> execution_log (notify_orchestrator report s)
     = execution_log s
       @ map orchestrator_notification_failed
           (callback_errors report (env s) (orchestrator_callbacks s))
   \<and> task_queue (notify_orchestrator report s) = task_queue s
   \<and> active_tasks (notify_orchestrator report s) = active_tasks s
   \<and> completed_tasks (notify_orchestrator report s) = completed_tasks s
   \<and> store (notify_orchestrator report s) = store s
   \<and> orchestrator_callbacks (notify_orchestrator report s) = orchestrator_callbacks s
   \<and> (\<exists>r s'. loop_iteration call_agent s = Inr (r, s'))"
  by (simp add: notify_orchestrator_fields loop_iteration_returns)
     (simp add: notify_orchestrator_def foldl_notify_env foldl_notify_log)

theorem notify_orchestrator_isolates_observers_witness:
  "env (notify_orchestrator (generate_progress_report observed_manager) observed_manager)
     = [''first: Discovery & Planning'', ''second: Discovery & Planning'',
        ''third: Discovery & Planning'']
   \<and> execution_log (notify_orchestrator (generate_progress_report observed_manager) observed_manager)
     = execution_log observed_manager @ [orchestrator_notification_failed ''observer down'']"
  using notify_orchestrator_isolates_observers
    [of "generate_progress_report observed_manager" observed_manager talking_agent]
  by (simp add: observed_manager_fields observer_def generate_progress_report_def
      determine_current_phase_def)

subsection \<open>C8: completed plus failed never decreases\<close>

text \<open>
  C8: the reports of one run, in the order in which they are generated, never decrease in
  \<open>completed_tasks + failed_tasks\<close>. This holds for the reports of any number of passes of
  the loop, and for a run that ends, with the final report as the last one. The run starts
  where every task of the completed history is completed or failed, as it is when the
  history is empty.
\<close>

theorem settled_tasks_monotone:
  assumes "history_finished s"
  shows "(\<forall>n reports s'. loop_prefix n call_agent s [] = Inr (reports, s') \<longrightarrow>
            sorted_wrt (\<lambda>r1 r2. settled r1 \<le> settled r2) reports)
     \<and> (\<forall>final_report reports s'.
            start_autonomous_execution call_agent s = Some (Inr (final_report, reports, s')) \<longrightarrow>
            sorted_wrt (\<lambda>r1 r2. settled r1 \<le> settled r2) (reports @ [final_report]))"
proof (intro conjI allI impI)
  fix n reports s'
  assume "loop_prefix n call_agent s [] = Inr (reports, s')"
  from loop_prefix_settled [OF this assms]
  show "sorted_wrt (\<lambda>r1 r2. settled r1 \<le> settled r2) reports"
    by simp
next
  fix final_report reports s'
  assume "start_autonomous_execution call_agent s = Some (Inr (final_report, reports, s'))"
  from start_autonomous_execution_prefix [OF this] obtain n s1 where
    run: "loop_prefix n call_agent
            (log_event (execution_started (length (task_queue s)) (session_id s)) s) []
          = Inr (reports, s1)"
    and fin: "final_report = generate_final_report s1"
    by blast
  have "history_finished (log_event (execution_started (length (task_queue s)) (session_id s)) s)"
    using assms by (simp add: history_finished_def finished_def [abs_def] log_event_fields)
  from loop_prefix_settled [OF run this]
  have h: "history_finished s1" "sorted_wrt (\<lambda>r1 r2. settled r1 \<le> settled r2) reports"
    "\<forall>r\<in>set reports. settled r \<le> length (completed_tasks s1)"
    by simp_all
  from fin settled_progress_report [OF h(1)]
  have "settled final_report = length (completed_tasks s1)"
    by (simp add: settled_final_report)
  with h(2,3) show "sorted_wrt (\<lambda>r1 r2. settled r1 \<le> settled r2) (reports @ [final_report])"
    by (simp add: sorted_wrt_append)
qed

theorem settled_tasks_monotone_witness:
  "history_finished chain_manager
   \<and> loop_prefix (Suc (Suc 0)) quiet_agent chain_manager [] =
       Inr ([generate_progress_report chain_pass1, generate_progress_report chain_pass2],
            notify_orchestrator (generate_progress_report chain_pass2) chain_pass2)
   \<and> settled (generate_progress_report chain_pass1) = 1
   \<and> settled (generate_progress_report chain_pass2) = 2
   \<and> settled (generate_progress_report chain_pass1) \<le> settled (generate_progress_report chain_pass2)"
proof -
  have h: "history_finished chain_manager"
    by (simp add: history_finished_def chain_manager_def field_rules)
  from settled_tasks_monotone [OF h, of quiet_agent] chain_manager_run
  have "sorted_wrt (\<lambda>r1 r2. settled r1 \<le> settled r2)
          [generate_progress_report chain_pass1, generate_progress_report chain_pass2]"
    by blast
  with h chain_manager_run chain_manager_reports show ?thesis
    by simp
qed

subsection \<open>C9: a retried task is counted twice\<close>

text \<open>
  C9: when the agent call for a task raises and the retry test of \<open>_handle_task_error\<close>
  passes (the incremented retry count is below the maximum), \<open>_execute_task\<close> leaves the
  task pending, appended to the queue and still entered in the dictionary of active
  tasks; \<open>_check_task_completion\<close> moves only finished tasks, so the task stays in both.
  A progress report generated then has the sum of the three lengths as \<open>total_tasks\<close>,
  which is more than the number of task objects the manager holds. The dictionary is
  an association list; its keys are distinct, as a dictionary's are.
\<close>

theorem retried_task_counted_twice:
  assumes "distinct (map fst (active_tasks s))"
    and "fst (call_agent (in_progress (store s a)) (env s)) = Some e"
    and "retry_count (store s a) + 1 < max_retry_attempts (store s a)"
  shows "a \<in> set (task_queue (execute_task call_agent a s))
     \<and> (task_id (store s a), a) \<in> set (active_tasks (execute_task call_agent a s))
     \<and> status (store (execute_task call_agent a s) a) = PENDING
     \<and> a \<in> set (task_queue (check_task_completion (execute_task call_agent a s)))
     \<and> (task_id (store s a), a)
          \<in> set (active_tasks (check_task_completion (execute_task call_agent a s)))
     \<and> total_tasks (generate_progress_report (check_task_completion (execute_task call_agent a s)))
          = length (task_queue (check_task_completion (execute_task call_agent a s)))
            + length (active_tasks (check_task_completion (execute_task call_agent a s)))
            + length (completed_tasks (check_task_completion (execute_task call_agent a s)))
     \<and> card (known_tasks (check_task_completion (execute_task call_agent a s)))
          < total_tasks (generate_progress_report
              (check_task_completion (execute_task call_agent a s)))"
proof -
  let ?s1 = "execute_task call_agent a s"
  let ?s2 = "check_task_completion ?s1"
  note r = execute_task_retry [of call_agent s a e, OF assms(2,3)]
  have q1: "a \<in> set (task_queue ?s1)" using r(1) by simp
  have nf: "\<not> finished ?s1 a" using r(2) by (simp add: finished_def)
  have q2: "a \<in> set (task_queue ?s2)"
    using q1 by (simp add: check_task_completion_fields)
  have a2: "(task_id (store s a), a) \<in> set (active_tasks ?s2)"
    using execute_task_keys [OF assms(1)] r(3) nf by (rule check_task_completion_keeps)
  have tot: "total_tasks (generate_progress_report ?s2)
      = length (task_queue ?s2) + length (active_tasks ?s2) + length (completed_tasks ?s2)"
    by (simp add: generate_progress_report_def)
  have "card (known_tasks ?s2)
      < length (task_queue ?s2) + length (active_tasks ?s2) + length (completed_tasks ?s2)"
    using q2 a2 by (rule known_tasks_overlap)
  with q1 r(2,3) q2 a2 tot show ?thesis
    by simp
qed

theorem retried_task_counted_twice_witness:
  "distinct (map fst (active_tasks (one_pending\<lparr> task_queue := [] \<rparr>)))
   \<and> fst (failing_agent (in_progress (store (one_pending\<lparr> task_queue := [] \<rparr>) 0))
             (env (one_pending\<lparr> task_queue := [] \<rparr>))) = Some ''boom''
   \<and> retry_count (store (one_pending\<lparr> task_queue := [] \<rparr>) 0) + 1
        < max_retry_attempts (store (one_pending\<lparr> task_queue := [] \<rparr>) 0)
   \<and> task_queue (check_task_completion (execute_task failing_agent 0 (one_pending\<lparr> task_queue := [] \<rparr>)))
        = [0]
   \<and> active_tasks (check_task_completion (execute_task failing_agent 0 (one_pending\<lparr> task_queue := [] \<rparr>)))
        = [(''A'', 0)]
   \<and> total_tasks (generate_progress_report
         (check_task_completion (execute_task failing_agent 0 (one_pending\<lparr> task_queue := [] \<rparr>)))) = 2
   \<and> card (known_tasks
         (check_task_completion (execute_task failing_agent 0 (one_pending\<lparr> task_queue := [] \<rparr>)))) < 2
   \<and> loop_iteration failing_agent one_pending =
        Inr (Some (generate_progress_report
                (check_task_completion (execute_task failing_agent 0 (one_pending\<lparr> task_queue := [] \<rparr>)))),
             notify_orchestrator (generate_progress_report
                (check_task_completion (execute_task failing_agent 0 (one_pending\<lparr> task_queue := [] \<rparr>))))
               (check_task_completion (execute_task failing_agent 0 (one_pending\<lparr> task_queue := [] \<rparr>))))"
proof -
  have h1: "distinct (map fst (active_tasks (one_pending\<lparr> task_queue := [] \<rparr>)))"
    by (simp add: one_pending_def field_rules)
  have h2: "fst (failing_agent (in_progress (store (one_pending\<lparr> task_queue := [] \<rparr>) 0))
             (env (one_pending\<lparr> task_queue := [] \<rparr>))) = Some ''boom''"
    by (simp add: failing_agent_def)
  have h3: "retry_count (store (one_pending\<lparr> task_queue := [] \<rparr>) 0) + 1
        < max_retry_attempts (store (one_pending\<lparr> task_queue := [] \<rparr>) 0)"
    by (simp add: one_pending_def field_rules example_defs)
  have q: "task_queue (check_task_completion (execute_task failing_agent 0 (one_pending\<lparr> task_queue := [] \<rparr>)))
        = [0]"
    by (simp add: one_pending_def field_rules example_defs)
  have a: "active_tasks (check_task_completion (execute_task failing_agent 0 (one_pending\<lparr> task_queue := [] \<rparr>)))
        = [(''A'', 0)]"
    by (simp add: one_pending_def field_rules example_defs)
  have c: "completed_tasks (check_task_completion (execute_task failing_agent 0 (one_pending\<lparr> task_queue := [] \<rparr>)))
        = []"
    by (simp add: one_pending_def field_rules example_defs)
  have l: "loop_iteration failing_agent one_pending =
        Inr (Some (generate_progress_report
                (check_task_completion (execute_task failing_agent 0 (one_pending\<lparr> task_queue := [] \<rparr>)))),
             notify_orchestrator (generate_progress_report
                (check_task_completion (execute_task failing_agent 0 (one_pending\<lparr> task_queue := [] \<rparr>))))
               (check_task_completion (execute_task failing_agent 0 (one_pending\<lparr> task_queue := [] \<rparr>))))"
    by (simp add: loop_iteration_eq Let_def one_pending_def field_rules example_defs)
  from retried_task_counted_twice
         [of "one_pending\<lparr> task_queue := [] \<rparr>" failing_agent 0 "''boom''", OF h1 h2 h3]
       h1 h2 h3 q a c l show ?thesis
    by simp
qed

subsection \<open>C10: no task is ever set to blocked or cancelled\<close>

text \<open>
  C10: no operation of the manager gives a task the status blocked or cancelled: a task
  with one of these after an operation had it before. So when no task of the active
  dictionary is blocked at the start of a run (the dictionary is empty then), every
  report of the run, the final one included, has \<open>blocked_tasks = 0\<close>.
\<close>

theorem never_blocked_or_cancelled:
  "sets_no_blocked s (add_tasks tasks s)
   \<and> sets_no_blocked s (register_orchestrator_callback cb s)
   \<and> sets_no_blocked s (mark_in_progress a s)
   \<and> sets_no_blocked s (handle_task_error a e s)
   \<and> sets_no_blocked s (attempt call_agent a s)
   \<and> sets_no_blocked s (execute_task call_agent a s)
   \<and> sets_no_blocked s (check_task_completion s)
   \<and> sets_no_blocked s (notify_orchestrator report s)
   \<and> (\<forall>ready s1. find_ready_tasks s = Inr (ready, s1) \<longrightarrow> sets_no_blocked s s1)
   \<and> (\<forall>r s'. loop_iteration call_agent s = Inr (r, s') \<longrightarrow> sets_no_blocked s s')
   \<and> (no_blocked_active s \<longrightarrow>
        (\<forall>n reports s'. loop_prefix n call_agent s [] = Inr (reports, s') \<longrightarrow>
            list_all (\<lambda>r. blocked_tasks r = 0) reports
            \<and> blocked_tasks (generate_progress_report s') = 0)
        \<and> (\<forall>final_report reports s'.
              start_autonomous_execution call_agent s = Some (Inr (final_report, reports, s')) \<longrightarrow>
              list_all (\<lambda>r. blocked_tasks r = 0) reports \<and> blocked_tasks final_report = 0))"
proof (intro conjI allI impI)
  show "sets_no_blocked s (add_tasks tasks s)"
    by (simp add: sets_no_blocked_same_store add_tasks_store)
  show "sets_no_blocked s (register_orchestrator_callback cb s)"
    by (simp add: sets_no_blocked_same_store register_orchestrator_callback_def)
  show "sets_no_blocked s (mark_in_progress a s)"
    by (simp add: sets_no_blocked_def mark_in_progress_fields)
  show "sets_no_blocked s (handle_task_error a e s)"
    by (simp add: sets_no_blocked_def handle_task_error_fields after_error_keeps)
  show "sets_no_blocked s (attempt call_agent a s)"
    by (simp add: sets_no_blocked_def attempt_fields after_error_keeps after_success_keeps
        split: option.splits)
  show "sets_no_blocked s (execute_task call_agent a s)"
    by (rule sets_no_blocked_execute_task)
  show "sets_no_blocked s (check_task_completion s)"
    by (simp add: sets_no_blocked_same_store check_task_completion_fields)
  show "sets_no_blocked s (notify_orchestrator report s)"
    by (simp add: sets_no_blocked_same_store notify_orchestrator_fields)
next
  fix ready s1
  assume "find_ready_tasks s = Inr (ready, s1)"
  then show "sets_no_blocked s s1"
    by (auto simp add: find_ready_tasks_eq sets_no_blocked_def)
next
  fix r s'
  assume "loop_iteration call_agent s = Inr (r, s')"
  from loop_iteration_fields(1) [OF this] sets_no_blocked_pass [of s call_agent]
  show "sets_no_blocked s s'"
    by (simp add: sets_no_blocked_def)
next
  fix n reports s'
  assume nb: "no_blocked_active s" and run: "loop_prefix n call_agent s [] = Inr (reports, s')"
  from loop_prefix_no_blocked [OF run nb]
  have "no_blocked_active s'" "\<forall>r\<in>set reports. blocked_tasks r = 0"
    by simp_all
  then show "list_all (\<lambda>r. blocked_tasks r = 0) reports"
    and "blocked_tasks (generate_progress_report s') = 0"
    by (simp_all add: list_all_iff blocked_tasks_zero)
next
  fix final_report reports s'
  assume nb: "no_blocked_active s"
    and "start_autonomous_execution call_agent s = Some (Inr (final_report, reports, s'))"
  from start_autonomous_execution_prefix [OF this(2)] obtain n s1 where
    run: "loop_prefix n call_agent
            (log_event (execution_started (length (task_queue s)) (session_id s)) s) []
          = Inr (reports, s1)"
    and fin: "final_report = generate_final_report s1"
    by blast
  have "no_blocked_active (log_event (execution_started (length (task_queue s)) (session_id s)) s)"
    using nb by (simp add: no_blocked_active_def log_event_fields)
  from loop_prefix_no_blocked [OF run this]
  have "no_blocked_active s1" "\<forall>r\<in>set reports. blocked_tasks r = 0"
    by simp_all
  with fin show "list_all (\<lambda>r. blocked_tasks r = 0) reports" and "blocked_tasks final_report = 0"
    using blocked_tasks_zero [of s1]
    by (simp_all add: list_all_iff generate_final_report_def)
qed

theorem never_blocked_or_cancelled_witness:
  "no_blocked_active chain_manager
   \<and> loop_prefix (Suc (Suc 0)) quiet_agent chain_manager [] =
       Inr ([generate_progress_report chain_pass1, generate_progress_report chain_pass2],
            notify_orchestrator (generate_progress_report chain_pass2) chain_pass2)
   \<and> blocked_tasks (generate_progress_report chain_pass1) = 0
   \<and> blocked_tasks (generate_progress_report chain_pass2) = 0
   \<and> status (store chain_pass2 (Suc 0)) = COMPLETED"
proof -
  have h: "no_blocked_active chain_manager"
    by (simp add: no_blocked_active_def chain_manager_def field_rules)
  from never_blocked_or_cancelled [where s = chain_manager and call_agent = quiet_agent] h
    chain_manager_run
  have "list_all (\<lambda>r. blocked_tasks r = 0)
          [generate_progress_report chain_pass1, generate_progress_report chain_pass2]"
    by blast
  with h chain_manager_run chain_manager_pass2 show ?thesis
    by simp
qed

end
